theory Spec2Isabelle
  imports Main "HOL-Library.AList"
begin

section \<open>MultiRaft: a shallow embedding of the event loop\<close>

text \<open>
  The development follows the Go source of the \<^verbatim>\<open>multiraft\<close> package function by function.
  Go's \<^verbatim>\<open>int\<close>, \<^verbatim>\<open>int32\<close> (NodeID), \<^verbatim>\<open>int64\<close> (GroupID, time.Duration) are modelled as
  \<^typ>\<open>int\<close>: the code below only compares these values or moves them by one, and no
  statement proved here depends on the behaviour at the machine bounds.
  A run-time panic (nil dereference, index out of range, write to a nil map, an explicit
  \<^verbatim>\<open>panic\<close>, \<^verbatim>\<open>log.Fatalf\<close>) is a value of type \<open>crash\<close>.
\<close>

type_synonym NodeID = int
type_synonym GroupID = int
type_synonym Time = int
type_synonym Duration = int
type_synonym bytes = string

datatype crash =
    NilDereference
  | IndexOutOfRange
  | NilMapAssignment
  | TypeAssertion
  | Panic string
  | Fatal string

datatype 'a outcome = Ok 'a | Crashed crash

text \<open>\<^verbatim>\<open>func (n NodeID) isSet() bool { return int32(n) != 0 }\<close>\<close>

definition isSet :: "NodeID \<Rightarrow> bool" where
  "isSet n = (n \<noteq> 0)"

subsection \<open>Configuration and construction\<close>

text \<open>
  \<^verbatim>\<open>Transport\<close>, \<^verbatim>\<open>Storage\<close> and \<^verbatim>\<open>Clock\<close> are interfaces implemented outside the package.
  A transport is represented by the results its methods give: the error (if any) of
  \<^verbatim>\<open>Listen\<close> and of \<^verbatim>\<open>Connect\<close> for a node. A nil interface value is \<open>None\<close>.
\<close>

record TransportImpl =
  Listen :: "NodeID \<Rightarrow> string option"
  Connect :: "NodeID \<Rightarrow> string option"

datatype ClockImpl = RealClock | OtherClock nat

datatype StorageImpl = StorageImpl nat

record Config =
  Storage :: "StorageImpl option"
  Transport :: "TransportImpl option"
  Clock :: "ClockImpl option"
  ElectionTimeoutMin :: Duration
  ElectionTimeoutMax :: Duration
  Strict :: bool

datatype config_error =
    InvalidNodeID
  | TransportRequired
  | ElectionTimeoutZero
  | ElectionTimeoutMinGreater
  | ListenFailed string
  | NilTransportCall

text \<open>\<^verbatim>\<open>Config.Validate\<close>: the three checks in source order.\<close>

definition Validate :: "Config \<Rightarrow> config_error option" where
  "Validate c =
     (if Transport c = None then Some TransportRequired
      else if ElectionTimeoutMin c = 0 \<or> ElectionTimeoutMax c = 0 then Some ElectionTimeoutZero
      else if ElectionTimeoutMin c > ElectionTimeoutMax c then Some ElectionTimeoutMinGreater
      else None)"

record MultiRaft =
  mr_Config :: Config
  mr_nodeID :: NodeID

text \<open>
  \<^verbatim>\<open>NewMultiRaft\<close>: node id check, \<^verbatim>\<open>Validate\<close>, clock default, then \<^verbatim>\<open>Transport.Listen\<close>,
  whose error is returned. The channels the constructor allocates start empty and are
  part of the loop state below. Calling \<^verbatim>\<open>Listen\<close> on a nil transport would panic; that
  branch is \<open>NilTransportCall\<close>.
\<close>

definition NewMultiRaft :: "NodeID \<Rightarrow> Config \<Rightarrow> config_error + MultiRaft" where
  "NewMultiRaft nodeID config =
     (if \<not> isSet nodeID then Inl InvalidNodeID
      else case Validate config of
        Some err \<Rightarrow> Inl err
      | None \<Rightarrow>
          let config = (if Clock config = None then config\<lparr>Clock := Some RealClock\<rparr> else config)
          in (case Transport config of
                None \<Rightarrow> Inl NilTransportCall
              | Some t \<Rightarrow>
                  (case Listen t nodeID of
                     Some err \<Rightarrow> Inl (ListenFailed err)
                   | None \<Rightarrow> Inr \<lparr>mr_Config = config, mr_nodeID = nodeID\<rparr>)))"

subsection \<open>Data model\<close>

text \<open>\<^verbatim>\<open>Role\<close>: the \<^verbatim>\<open>iota\<close> constants in source order.\<close>

datatype Role = RoleObserver | RoleFollower | RoleCandidate | RoleLeader

text \<open>
  Modelled from the spec: the log entry, election state and membership types, which are
  declared in a file of the package that is not among the sources. The spec gives
  \<open>LogEntry = {term, index, type \<in> {Command, ChangeMembership}, payload}\<close>,
  \<open>ElectionState = {current_term, voted_for}\<close> (a zero \<open>voted_for\<close> is unset) and
  \<open>GroupMembers\<close> as voting members plus observers; the field and constructor names are
  the ones the loop uses.
\<close>

datatype LogEntryType = LogEntryCommand | LogEntryChangeMembership

record LogEntry =
  Term :: int
  Index :: int
  Type :: LogEntryType
  Payload :: bytes

record GroupElectionState =
  CurrentTerm :: int
  VotedFor :: NodeID

record GroupMembers =
  Members :: "NodeID list"
  Observers :: "NodeID list"

text \<open>
  Modelled from the spec: \<^verbatim>\<open>GroupElectionState.Equal\<close>, whose body is not among the sources.
  The spec compares \<open>election_state\<close> with \<open>persisted_election_state\<close>, which may be unset
  (a nil pointer); an unset persisted state differs from every election state.
\<close>

definition Equal :: "GroupElectionState \<Rightarrow> GroupElectionState option \<Rightarrow> bool" where
  "Equal g other =
     (case other of
        None \<Rightarrow> False
      | Some e \<Rightarrow> CurrentTerm g = CurrentTerm e \<and> VotedFor g = VotedFor e)"

text \<open>
  Modelled from the spec: the RPC messages, declared outside the sources. The spec lists
  \<open>RequestVote{header{src,dst}, group, term, candidate, last_log_index, last_log_term}\<close> with
  response \<open>{term, vote_granted}\<close>, and \<open>AppendEntries{header, group, term, leader,
  prev_log_index, prev_log_term, leader_commit, entries}\<close> with response \<open>{term, success}\<close>;
  the field names are the ones the loop uses. The request header is embedded in each
  request, so its fields are fields of the request. The two service-method names are
  constants declared outside the sources and stay abstract.
\<close>

record RequestHeader =
  SrcNode :: NodeID
  DestNode :: NodeID

record RequestVoteRequest = RequestHeader +
  rv_GroupID :: GroupID
  rv_Term :: int
  CandidateID :: NodeID
  LastLogIndex :: int
  LastLogTerm :: int

record RequestVoteResponse =
  vr_Term :: int
  VoteGranted :: bool

record AppendEntriesRequest = RequestHeader +
  ae_GroupID :: GroupID
  ae_Term :: int
  LeaderID :: NodeID
  PrevLogIndex :: int
  PrevLogTerm :: int
  LeaderCommit :: int
  Entries :: "LogEntry list"

record AppendEntriesResponse =
  ar_Term :: int
  Success :: bool

datatype service_method = requestVoteName | appendEntriesName | otherName string

datatype rpc_args = VoteArgs RequestVoteRequest | AppendArgs AppendEntriesRequest

datatype rpc_reply = VoteReply RequestVoteResponse | AppendReply AppendEntriesResponse

datatype rpc_error = UnknownGroup GroupID

text \<open>
  \<^verbatim>\<open>rpc.Call\<close>. \<open>callId\<close> stands for the identity of the call object and of its \<^verbatim>\<open>Done\<close>
  channel. A send \<^verbatim>\<open>call.Done <- call\<close> is recorded by appending the call, with the reply
  and error it carries at that moment, to the \<open>doneCalls\<close> log of the state.
\<close>

record rpc_Call =
  callId :: nat
  ServiceMethod :: service_method
  Args :: rpc_args
  Reply :: rpc_reply
  Error :: "rpc_error option"

text \<open>\<^verbatim>\<open>pendingCall{call, term, logIndex}\<close>.\<close>

record pendingCall =
  pc_call :: rpc_Call
  pc_term :: int
  pc_logIndex :: int

text \<open>
  \<^verbatim>\<open>group\<close>. Pointers that can be nil are options: \<open>persistedElectionState\<close>,
  \<open>persistedCommittedMembers\<close> and \<open>currentMembers\<close> are nil in a new group, and so is the
  \<open>votes\<close> map (reading a nil map gives the zero value, writing to it panics).
  \<^verbatim>\<open>electionState\<close> and \<^verbatim>\<open>committedMembers\<close> are set by \<^verbatim>\<open>newGroup\<close> and never nil.
  A Go map that is only read and written by key is a total function giving the zero
  value for a missing key.
\<close>

record group =
  groupID :: GroupID
  electionState :: GroupElectionState
  committedMembers :: GroupMembers
  lastLogIndex :: int
  lastLogTerm :: int
  persistedElectionState :: "GroupElectionState option"
  persistedCommittedMembers :: "GroupMembers option"
  persistedLastIndex :: int
  persistedLastTerm :: int
  role :: Role
  leaderCommitIndex :: int
  commitIndex :: int
  electionDeadline :: Time
  votes :: "(NodeID \<Rightarrow> bool) option"
  currentMembers :: "GroupMembers option"
  nextIndex :: "NodeID \<Rightarrow> int"
  matchIndex :: "NodeID \<Rightarrow> int"
  pendingCalls :: "pendingCall list"
  pendingEntries :: "LogEntry list"

definition newGroup :: "GroupID \<Rightarrow> NodeID list \<Rightarrow> group" where
  "newGroup gid members =
     \<lparr>groupID = gid,
      electionState = \<lparr>CurrentTerm = 0, VotedFor = 0\<rparr>,
      committedMembers = \<lparr>Members = members, Observers = []\<rparr>,
      lastLogIndex = 0,
      lastLogTerm = 0,
      persistedElectionState = None,
      persistedCommittedMembers = None,
      persistedLastIndex = 0,
      persistedLastTerm = 0,
      role = RoleFollower,
      leaderCommitIndex = 0,
      commitIndex = 0,
      electionDeadline = 0,
      votes = None,
      currentMembers = None,
      nextIndex = (\<lambda>_. 0),
      matchIndex = (\<lambda>_. 0),
      pendingCalls = [],
      pendingEntries = []\<rparr>"

text \<open>
  \<^verbatim>\<open>findQuorumIndex\<close>: collect \<^verbatim>\<open>matchIndex\<close> over \<^verbatim>\<open>currentMembers.Members\<close>, sort ascending,
  and read position \<^verbatim>\<open>len(indices)/2 + 1\<close>. Reading past the end of the slice panics.
\<close>

definition findQuorumIndex :: "group \<Rightarrow> int outcome" where
  "findQuorumIndex g =
     (case currentMembers g of
        None \<Rightarrow> Crashed NilDereference
      | Some cm \<Rightarrow>
          let indices = sort (map (matchIndex g) (Members cm));
              quorumPos = length indices div 2 + 1
          in if quorumPos < length indices then Ok (indices ! quorumPos)
             else Crashed IndexOutOfRange)"

text \<open>
  For comparison: the position the design notes give as the intended majority index of
  the ascending list, \<open>indices[(len-1)/2]\<close>, and the property the function's comment
  states (a quorum, that is a strict majority of the members, has reached index \<open>n\<close>).
\<close>

definition spec_quorum_pos :: "nat \<Rightarrow> nat" where
  "spec_quorum_pos len = (len - 1) div 2"

definition quorum_agrees :: "group \<Rightarrow> NodeID list \<Rightarrow> int \<Rightarrow> bool" where
  "quorum_agrees g members n =
     (length (filter (\<lambda>nodeID. n \<le> matchIndex g nodeID) members) * 2 > length members)"

subsection \<open>Loop state\<close>

text \<open>
  Modelled from the spec: the two events, \<open>EventLeaderElection{group, leader}\<close> and
  \<open>EventCommandCommitted{payload}\<close>, declared outside the sources. The results of an op
  are the errors the loop sends on the op's channel. A \<^verbatim>\<open>node\<close> is kept without its client,
  whose sends are recorded in the state.
\<close>

datatype event = EventLeaderElection GroupID NodeID | EventCommandCommitted bytes

datatype op_error = GroupExists GroupID | ConnectFailed string | NotLeader

record node =
  n_nodeID :: NodeID
  refCount :: int

text \<open>
  Modelled from the spec: the write task's request and response, declared outside the
  sources. A request holds, per group, the election state (if it is to be written) and
  the entries; a response holds, per group, the stored election state (if included), the
  last persisted index and term (index -1 when the batch had no entries for the group)
  and the entries that were persisted. The field names are the ones the loop uses.
\<close>

record groupWriteRequest =
  wq_electionState :: "GroupElectionState option"
  wq_entries :: "LogEntry list"

type_synonym writeRequest = "(GroupID \<times> groupWriteRequest) list"

record groupWriteResponse =
  wr_electionState :: "GroupElectionState option"
  wr_lastIndex :: int
  wr_lastTerm :: int
  wr_entries :: "LogEntry list"

type_synonym writeResponse = "(GroupID \<times> groupWriteResponse) list"

text \<open>
  \<^verbatim>\<open>state\<close>. The tables \<^verbatim>\<open>groups\<close> and \<^verbatim>\<open>nodes\<close> are association lists (the loop iterates
  over them; Go leaves the order open, the model takes table order). \<^verbatim>\<open>groups\<close> is the
  store of group objects: a \<^verbatim>\<open>*group\<close> is its key, and a handler that changes a group
  through the pointer writes the changed value back under that key. \<^verbatim>\<open>dirtyGroups\<close> maps
  a group id to the same pointer that \<^verbatim>\<open>groups\<close> holds for it, so it is the list of its
  keys. The remaining fields record what the loop sends: events on \<^verbatim>\<open>Events\<close> (a channel
  of capacity 1000; the model has no consumer, so \<open>Events\<close> is everything sent so far),
  results on the ops' reply channels, calls sent on their \<^verbatim>\<open>Done\<close> channels, requests
  handed to the peers' clients, and write requests handed to the write task.
\<close>

record state =
  mr :: MultiRaft
  groups :: "(GroupID \<times> group) list"
  dirtyGroups :: "GroupID list"
  nodes :: "(NodeID \<times> node) list"
  Events :: "event list"
  opResults :: "op_error option list"
  doneCalls :: "rpc_Call list"
  requestsSent :: "rpc_args list"
  writeTaskIn :: "writeRequest list"
  closedConns :: "NodeID list"
  stopped :: bool

definition newState :: "MultiRaft \<Rightarrow> state" where
  "newState m =
     \<lparr>mr = m, groups = [], dirtyGroups = [], nodes = [], Events = [], opResults = [],
      doneCalls = [], requestsSent = [], writeTaskIn = [], closedConns = [], stopped = False\<rparr>"

text \<open>
  What one loop iteration gets from the clock, the random source and the storage:
  the current time, the deadline \<^verbatim>\<open>Clock.Now() + RandIntInRange(min, max)\<close> drawn for a group,
  and the entries \<^verbatim>\<open>Storage.GetLogEntries(group, lo, hi)\<close> streams.
\<close>

record env =
  now :: Time
  nextDeadline :: "GroupID \<Rightarrow> Time"
  GetLogEntries :: "GroupID \<Rightarrow> int \<Rightarrow> int \<Rightarrow> LogEntry list"

primrec andThen :: "'a outcome \<Rightarrow> ('a \<Rightarrow> 'b outcome) \<Rightarrow> 'b outcome" where
  "andThen (Ok x) f = f x"
| "andThen (Crashed c) f = Crashed c"

definition putGroup :: "GroupID \<Rightarrow> group \<Rightarrow> state \<Rightarrow> state" where
  "putGroup gid g s = s\<lparr>groups := AList.update gid g (groups s)\<rparr>"

definition strictErrorLog :: "string \<Rightarrow> state \<Rightarrow> state outcome" where
  "strictErrorLog msg s = (if Strict (mr_Config (mr s)) then Crashed (Fatal msg) else Ok s)"

definition sendEvent :: "event \<Rightarrow> state \<Rightarrow> state outcome" where
  "sendEvent ev s =
     (if length (Events s) < 1000 then Ok (s\<lparr>Events := Events s @ [ev]\<rparr>)
      else Crashed (Panic ''MultiRaft.Events backlog reached limit''))"

definition updateElectionDeadline :: "env \<Rightarrow> group \<Rightarrow> group" where
  "updateElectionDeadline e g = g\<lparr>electionDeadline := nextDeadline e (groupID g)\<rparr>"

text \<open>\<^verbatim>\<open>nextElectionTimer\<close>: the smallest \<^verbatim>\<open>electionDeadline - now\<close>, starting from \<^verbatim>\<open>math.MaxInt64\<close>.\<close>

definition nextElectionTimer :: "env \<Rightarrow> state \<Rightarrow> Duration" where
  "nextElectionTimer e s =
     fold (\<lambda>(gid, g) minTimeout.
             let timeout = electionDeadline g - now e
             in if timeout < minTimeout then timeout else minTimeout)
          (groups s) 9223372036854775807"

text \<open>\<^verbatim>\<open>updateDirtyStatus\<close>.\<close>

definition updateDirtyStatus :: "group \<Rightarrow> state \<Rightarrow> state" where
  "updateDirtyStatus g s =
     (let dirty = False;
          dirty = (if \<not> Equal (electionState g) (persistedElectionState g) then True else dirty);
          dirty = (if length (pendingEntries g) > 0 then True else dirty)
      in if dirty then s\<lparr>dirtyGroups := List.insert (groupID g) (dirtyGroups s)\<rparr>
         else s\<lparr>dirtyGroups := removeAll (groupID g) (dirtyGroups s)\<rparr>)"

text \<open>
  \<^verbatim>\<open>createGroup\<close>. The member loop raises the reference count of a known node and connects
  to an unknown one; a failed connect replies with the error and returns, keeping what
  the loop did so far.
\<close>

fun connectMembers :: "NodeID list \<Rightarrow> state \<Rightarrow> (state \<times> op_error option) outcome" where
  "connectMembers [] s = Ok (s, None)"
| "connectMembers (member # rest) s =
     (case map_of (nodes s) member of
        Some n \<Rightarrow>
          connectMembers rest (s\<lparr>nodes := AList.update member (n\<lparr>refCount := refCount n + 1\<rparr>) (nodes s)\<rparr>)
      | None \<Rightarrow>
          (case Transport (mr_Config (mr s)) of
             None \<Rightarrow> Crashed NilDereference
           | Some t \<Rightarrow>
               (case Connect t member of
                  Some err \<Rightarrow> Ok (s, Some (ConnectFailed err))
                | None \<Rightarrow>
                    connectMembers rest
                      (s\<lparr>nodes := AList.update member \<lparr>n_nodeID = member, refCount = 1\<rparr> (nodes s)\<rparr>))))"

definition createGroup :: "env \<Rightarrow> group \<Rightarrow> state \<Rightarrow> state outcome" where
  "createGroup e g s =
     (if map_of (groups s) (groupID g) \<noteq> None
      then Ok (s\<lparr>opResults := opResults s @ [Some (GroupExists (groupID g))]\<rparr>)
      else andThen (connectMembers (Members (committedMembers g)) s) (\<lambda>(s, err).
        if err \<noteq> None then Ok (s\<lparr>opResults := opResults s @ [err]\<rparr>)
        else let g = updateElectionDeadline e g;
                 s = putGroup (groupID g) g s
             in Ok (s\<lparr>opResults := opResults s @ [None]\<rparr>)))"

text \<open>\<^verbatim>\<open>addLogEntry\<close>, \<^verbatim>\<open>submitCommand\<close>, \<^verbatim>\<open>changeGroupMembership\<close>.\<close>

definition addLogEntry ::
    "GroupID \<Rightarrow> LogEntryType \<Rightarrow> bytes \<Rightarrow> state \<Rightarrow> (state \<times> op_error option) outcome" where
  "addLogEntry gid entryType payload s =
     (case map_of (groups s) gid of
        None \<Rightarrow> Crashed NilDereference
      | Some g \<Rightarrow>
          if role g \<noteq> RoleLeader then Ok (s, Some NotLeader)
          else let g = g\<lparr>lastLogIndex := lastLogIndex g + 1\<rparr>;
                   entry = \<lparr>Term = CurrentTerm (electionState g), Index = lastLogIndex g,
                            Type = entryType, Payload = payload\<rparr>;
                   g = g\<lparr>pendingEntries := pendingEntries g @ [entry]\<rparr>;
                   s = updateDirtyStatus g s
               in Ok (putGroup gid g s, None))"

definition submitCommand :: "GroupID \<Rightarrow> bytes \<Rightarrow> state \<Rightarrow> state outcome" where
  "submitCommand gid command s =
     andThen (addLogEntry gid LogEntryCommand command s) (\<lambda>(s, err).
       Ok (s\<lparr>opResults := opResults s @ [err]\<rparr>))"

definition changeGroupMembership :: "GroupID \<Rightarrow> state \<Rightarrow> state outcome" where
  "changeGroupMembership gid s =
     andThen (addLogEntry gid LogEntryChangeMembership [] s) (\<lambda>(s, err).
       Ok (s\<lparr>opResults := opResults s @ [err]\<rparr>))"

text \<open>
  \<^verbatim>\<open>resolvePendingCall\<close>: when the persisted state has caught up with the call, send the
  call on its \<^verbatim>\<open>Done\<close> channel and report true. \<^verbatim>\<open>addPendingCall\<close> queues what does not resolve.
\<close>

definition resolvePendingCall :: "group \<Rightarrow> pendingCall \<Rightarrow> state \<Rightarrow> bool \<times> state" where
  "resolvePendingCall g c s =
     (case persistedElectionState g of
        None \<Rightarrow> (False, s)
      | Some pes \<Rightarrow>
          if persistedLastIndex g = - 1 then (False, s)
          else if pc_term c \<noteq> - 1 \<and> pc_term c > CurrentTerm pes then (False, s)
          else if pc_logIndex c \<noteq> - 1 \<and> pc_logIndex c > persistedLastIndex g then (False, s)
          else (True, s\<lparr>doneCalls := doneCalls s @ [pc_call c]\<rparr>))"

definition addPendingCall :: "group \<Rightarrow> pendingCall \<Rightarrow> state \<Rightarrow> group \<times> state" where
  "addPendingCall g c s =
     (let (resolved, s) = resolvePendingCall g c s
      in if \<not> resolved then (g\<lparr>pendingCalls := pendingCalls g @ [c]\<rparr>, s) else (g, s))"

text \<open>\<^verbatim>\<open>requestVoteRequest\<close>: the only handler that checks the result of the table lookup.\<close>

definition requestVoteRequest :: "RequestVoteRequest \<Rightarrow> rpc_Call \<Rightarrow> state \<Rightarrow> state outcome" where
  "requestVoteRequest req call s =
     (case map_of (groups s) (rv_GroupID req) of
        None \<Rightarrow>
          Ok (s\<lparr>doneCalls := doneCalls s @ [call\<lparr>Error := Some (UnknownGroup (rv_GroupID req))\<rparr>]\<rparr>)
      | Some g \<Rightarrow>
          let (g, granted) =
                (if isSet (VotedFor (electionState g)) \<and> VotedFor (electionState g) \<noteq> CandidateID req
                 then (g, False)
                 else (g\<lparr>electionState := (electionState g)\<lparr>CurrentTerm := rv_Term req\<rparr>\<rparr>, True));
              resp = \<lparr>vr_Term = CurrentTerm (electionState g), VoteGranted = granted\<rparr>;
              call = call\<lparr>Reply := VoteReply resp\<rparr>;
              (g, s) = addPendingCall g
                         \<lparr>pc_call = call, pc_term = CurrentTerm (electionState g), pc_logIndex = - 1\<rparr> s;
              s = updateDirtyStatus g s
          in Ok (putGroup (rv_GroupID req) g s))"

text \<open>\<^verbatim>\<open>hasMajority\<close>: count the members whose vote is recorded; a nil map reads as false.\<close>

definition readVote :: "(NodeID \<Rightarrow> bool) option \<Rightarrow> NodeID \<Rightarrow> bool" where
  "readVote vs n = (case vs of None \<Rightarrow> False | Some v \<Rightarrow> v n)"

definition hasMajority :: "(NodeID \<Rightarrow> bool) option \<Rightarrow> NodeID list \<Rightarrow> bool" where
  "hasMajority vs members =
     (let voteCount = fold (\<lambda>n count. if readVote vs n then count + 1 else count) members (0::int)
      in voteCount * 2 > int (length members))"

definition countVotes :: "group \<Rightarrow> state \<Rightarrow> (group \<times> state) outcome" where
  "countVotes g s =
     (if role g = RoleCandidate
      then (case currentMembers g of
              None \<Rightarrow> Crashed NilDereference
            | Some cm \<Rightarrow>
                if hasMajority (votes g) (Members cm)
                then let g = g\<lparr>role := RoleLeader\<rparr>
                     in andThen (sendEvent (EventLeaderElection (groupID g) (mr_nodeID (mr s))) s)
                          (\<lambda>s. Ok (g, s))
                else Ok (g, s))
      else Ok (g, s))"

definition requestVoteResponse ::
    "RequestVoteRequest \<Rightarrow> RequestVoteResponse \<Rightarrow> state \<Rightarrow> state outcome" where
  "requestVoteResponse req resp s =
     (case map_of (groups s) (rv_GroupID req) of
        None \<Rightarrow> Crashed NilDereference
      | Some g \<Rightarrow>
          if vr_Term resp < CurrentTerm (electionState g) then Ok s
          else andThen
                 (if VoteGranted resp
                  then (case votes g of
                          None \<Rightarrow> Crashed NilMapAssignment
                        | Some v \<Rightarrow> Ok (g\<lparr>votes := Some (v(DestNode req := VoteGranted resp))\<rparr>))
                  else Ok g)
                 (\<lambda>g. andThen (countVotes g s)
                    (\<lambda>(g, s). Ok (putGroup (rv_GroupID req) g (updateDirtyStatus g s)))))"

text \<open>
  \<^verbatim>\<open>broadcastEntries\<close> and \<^verbatim>\<open>broadcastEntriesToNodes\<close>: a leader hands one
  \<^verbatim>\<open>AppendEntriesRequest\<close> per member and observer to that node's client.
\<close>

fun broadcastEntriesToNodes :: "group \<Rightarrow> LogEntry list \<Rightarrow> NodeID list \<Rightarrow> state \<Rightarrow> state outcome" where
  "broadcastEntriesToNodes g entries [] s = Ok s"
| "broadcastEntriesToNodes g entries (i # rest) s =
     (case map_of (nodes s) i of
        None \<Rightarrow> Crashed NilDereference
      | Some n \<Rightarrow>
          broadcastEntriesToNodes g entries rest
            (s\<lparr>requestsSent := requestsSent s @
                 [AppendArgs \<lparr>SrcNode = mr_nodeID (mr s), DestNode = i,
                              ae_GroupID = groupID g,
                              ae_Term = CurrentTerm (electionState g),
                              LeaderID = mr_nodeID (mr s),
                              PrevLogIndex = persistedLastIndex g,
                              PrevLogTerm = persistedLastTerm g,
                              LeaderCommit = commitIndex g,
                              Entries = entries\<rparr>]\<rparr>))"

definition broadcastEntries :: "group \<Rightarrow> LogEntry list \<Rightarrow> state \<Rightarrow> state outcome" where
  "broadcastEntries g entries s =
     (if role g \<noteq> RoleLeader then Ok s
      else (case currentMembers g of
              None \<Rightarrow> Crashed NilDereference
            | Some cm \<Rightarrow>
                andThen (broadcastEntriesToNodes g entries (Members cm) s)
                  (\<lambda>s. broadcastEntriesToNodes g entries (Observers cm) s)))"

text \<open>
  \<^verbatim>\<open>commitEntries\<close>. The loop over the streamed entries sends an event for a command entry
  and calls \<^verbatim>\<open>log.Fatalf\<close> in the \<^verbatim>\<open>default\<close> branch of the type switch.
\<close>

fun commitLoop :: "LogEntry list \<Rightarrow> state \<Rightarrow> state outcome" where
  "commitLoop [] s = Ok s"
| "commitLoop (entry # rest) s =
     (case Type entry of
        LogEntryCommand \<Rightarrow>
          andThen (sendEvent (EventCommandCommitted (Payload entry)) s) (commitLoop rest)
      | _ \<Rightarrow> Crashed (Fatal ''committed unknown entry type''))"

definition commitEntries :: "env \<Rightarrow> group \<Rightarrow> int \<Rightarrow> state \<Rightarrow> (group \<times> state) outcome" where
  "commitEntries e g leaderCommit s =
     (if leaderCommit = commitIndex g then Ok (g, s)
      else if leaderCommit < commitIndex g then Ok (g, s)
      else let g = g\<lparr>leaderCommitIndex := leaderCommit\<rparr>;
               index = leaderCommit;
               index = (if index > persistedLastIndex g then persistedLastIndex g else index);
               entries = GetLogEntries e (groupID g) (commitIndex g + 1) index
           in andThen (commitLoop entries s) (\<lambda>s.
                let g = g\<lparr>commitIndex := index\<rparr>
                in andThen (broadcastEntries g [] s) (\<lambda>s. Ok (g, s))))"

text \<open>\<^verbatim>\<open>appendEntriesRequest\<close> and \<^verbatim>\<open>appendEntriesResponse\<close>.\<close>

definition appendEntriesRequest ::
    "env \<Rightarrow> AppendEntriesRequest \<Rightarrow> rpc_Call \<Rightarrow> state \<Rightarrow> state outcome" where
  "appendEntriesRequest e req call s =
     (case map_of (groups s) (ae_GroupID req) of
        None \<Rightarrow> Crashed NilDereference
      | Some g \<Rightarrow>
          if ae_Term req < CurrentTerm (electionState g)
          then Ok (s\<lparr>doneCalls := doneCalls s @
                      [call\<lparr>Reply := AppendReply
                         \<lparr>ar_Term = CurrentTerm (electionState g), Success = False\<rparr>\<rparr>]\<rparr>)
          else let g = g\<lparr>pendingEntries := pendingEntries g @ Entries req\<rparr>;
                   g = (if length (pendingEntries g) > 0
                        then let lastEntry = last (pendingEntries g)
                             in g\<lparr>lastLogIndex := Index lastEntry, lastLogTerm := Term lastEntry\<rparr>
                        else g);
                   s = updateDirtyStatus g s;
                   call = call\<lparr>Reply := AppendReply
                            \<lparr>ar_Term = CurrentTerm (electionState g), Success = True\<rparr>\<rparr>;
                   (g, s) = addPendingCall g
                              \<lparr>pc_call = call, pc_term = - 1, pc_logIndex = lastLogIndex g\<rparr> s
               in andThen (commitEntries e g (LeaderCommit req) s)
                    (\<lambda>(g, s). Ok (putGroup (ae_GroupID req) g s)))"

definition appendEntriesResponse ::
    "env \<Rightarrow> AppendEntriesRequest \<Rightarrow> AppendEntriesResponse \<Rightarrow> state \<Rightarrow> state outcome" where
  "appendEntriesResponse e req resp s =
     (case map_of (groups s) (ae_GroupID req) of
        None \<Rightarrow> Crashed NilDereference
      | Some g \<Rightarrow>
          let g = (if Success resp
                   then (if length (Entries req) > 0
                         then let lastIndex = Index (last (Entries req))
                              in g\<lparr>nextIndex := (nextIndex g)(DestNode req := lastIndex + 1),
                                   matchIndex := (matchIndex g)(DestNode req := lastIndex)\<rparr>
                         else g)
                   else g\<lparr>nextIndex := (nextIndex g)(DestNode req := nextIndex g (DestNode req) - 1)\<rparr>)
          in andThen (findQuorumIndex g) (\<lambda>q.
               andThen (commitEntries e g q s)
                 (\<lambda>(g, s). Ok (putGroup (ae_GroupID req) g s))))"

text \<open>
  \<^verbatim>\<open>handleWriteReady\<close>: one \<^verbatim>\<open>groupWriteRequest\<close> per dirty group, then a single send of the
  \<^verbatim>\<open>writeRequest\<close> to the write task. A dirty id without a group cannot occur in the source
  (the map holds the group pointer itself); the model reports it as a nil dereference.
\<close>

fun writeReadyLoop ::
    "GroupID list \<Rightarrow> writeRequest \<Rightarrow> state \<Rightarrow> (writeRequest \<times> state) outcome" where
  "writeReadyLoop [] wreq s = Ok (wreq, s)"
| "writeReadyLoop (gid # rest) wreq s =
     (case map_of (groups s) gid of
        None \<Rightarrow> Crashed NilDereference
      | Some g \<Rightarrow>
          let req = \<lparr>wq_electionState = None, wq_entries = []\<rparr>;
              req = (if \<not> Equal (electionState g) (persistedElectionState g)
                     then req\<lparr>wq_electionState := Some (electionState g)\<rparr> else req);
              (req, g) = (if length (pendingEntries g) > 0
                          then (req\<lparr>wq_entries := pendingEntries g\<rparr>, g\<lparr>pendingEntries := []\<rparr>)
                          else (req, g))
          in writeReadyLoop rest (AList.update gid req wreq) (putGroup gid g s))"

definition handleWriteReady :: "state \<Rightarrow> state outcome" where
  "handleWriteReady s =
     andThen (writeReadyLoop (dirtyGroups s) [] s) (\<lambda>(wreq, s).
       Ok (s\<lparr>writeTaskIn := writeTaskIn s @ [wreq]\<rparr>))"

text \<open>
  \<^verbatim>\<open>handleWriteResponse\<close>. For each pending call that \<^verbatim>\<open>resolvePendingCall\<close> reports resolved,
  the loop body sends the call on \<^verbatim>\<open>Done\<close> and marks the list element for removal.
\<close>

fun resolveLoop :: "group \<Rightarrow> pendingCall list \<Rightarrow> state \<Rightarrow> pendingCall list \<times> state" where
  "resolveLoop g [] s = ([], s)"
| "resolveLoop g (c # cs) s =
     (let (resolved, s) = resolvePendingCall g c s
      in if \<not> resolved
         then (let (kept, s) = resolveLoop g cs s in (c # kept, s))
         else resolveLoop g cs (s\<lparr>doneCalls := doneCalls s @ [pc_call c]\<rparr>))"

definition writeResponseGroup ::
    "env \<Rightarrow> GroupID \<Rightarrow> groupWriteResponse \<Rightarrow> state \<Rightarrow> state outcome" where
  "writeResponseGroup e gid persistedGroup s =
     (case map_of (groups s) gid of
        None \<Rightarrow> Crashed NilDereference
      | Some g \<Rightarrow>
          let g = (if wr_electionState persistedGroup \<noteq> None
                   then g\<lparr>persistedElectionState := wr_electionState persistedGroup\<rparr> else g)
          in andThen
               (if wr_lastIndex persistedGroup \<noteq> - 1
                then andThen (broadcastEntries g (wr_entries persistedGroup) s) (\<lambda>s.
                       Ok (g\<lparr>persistedLastIndex := wr_lastIndex persistedGroup,
                             persistedLastTerm := wr_lastTerm persistedGroup\<rparr>, s))
                else Ok (g, s))
               (\<lambda>(g, s). andThen (commitEntries e g (leaderCommitIndex g) s) (\<lambda>(g, s).
                  let (kept, s) = resolveLoop g (pendingCalls g) s;
                      g = g\<lparr>pendingCalls := kept\<rparr>;
                      s = updateDirtyStatus g s
                  in Ok (putGroup gid g s))))"

fun handleWriteResponse :: "env \<Rightarrow> writeResponse \<Rightarrow> state \<Rightarrow> state outcome" where
  "handleWriteResponse e [] s = Ok s"
| "handleWriteResponse e ((gid, persistedGroup) # rest) s =
     andThen (writeResponseGroup e gid persistedGroup s) (handleWriteResponse e rest)"

text \<open>\<^verbatim>\<open>becomeCandidate\<close> and \<^verbatim>\<open>handleElectionTimers\<close>.\<close>

fun requestVotes :: "group \<Rightarrow> NodeID list \<Rightarrow> state \<Rightarrow> state outcome" where
  "requestVotes g [] s = Ok s"
| "requestVotes g (i # rest) s =
     (case map_of (nodes s) i of
        None \<Rightarrow> Crashed NilDereference
      | Some n \<Rightarrow>
          requestVotes g rest
            (s\<lparr>requestsSent := requestsSent s @
                 [VoteArgs \<lparr>SrcNode = mr_nodeID (mr s), DestNode = i,
                            rv_GroupID = groupID g,
                            rv_Term = CurrentTerm (electionState g),
                            CandidateID = mr_nodeID (mr s),
                            LastLogIndex = lastLogIndex g,
                            LastLogTerm = lastLogTerm g\<rparr>]\<rparr>))"

definition becomeCandidate :: "env \<Rightarrow> group \<Rightarrow> state \<Rightarrow> (group \<times> state) outcome" where
  "becomeCandidate e g s =
     (if role g = RoleLeader then Crashed (Panic ''cannot transition from leader to candidate'')
      else let g = g\<lparr>role := RoleCandidate\<rparr>;
               g = g\<lparr>electionState := (electionState g)\<lparr>CurrentTerm := CurrentTerm (electionState g) + 1\<rparr>\<rparr>;
               g = g\<lparr>electionState := (electionState g)\<lparr>VotedFor := mr_nodeID (mr s)\<rparr>\<rparr>;
               g = g\<lparr>votes := Some (\<lambda>_. False)\<rparr>;
               g = g\<lparr>currentMembers := Some (committedMembers g)\<rparr>;
               g = updateElectionDeadline e g
           in andThen (requestVotes g (Members (committedMembers g)) s) (\<lambda>s.
                Ok (g, updateDirtyStatus g s)))"

fun electionTimersLoop :: "env \<Rightarrow> Time \<Rightarrow> GroupID list \<Rightarrow> state \<Rightarrow> state outcome" where
  "electionTimersLoop e t [] s = Ok s"
| "electionTimersLoop e t (gid # rest) s =
     (case map_of (groups s) gid of
        None \<Rightarrow> Crashed NilDereference
      | Some g \<Rightarrow>
          if \<not> t < electionDeadline g
          then andThen (becomeCandidate e g s) (\<lambda>(g, s).
                 electionTimersLoop e t rest (putGroup gid g s))
          else electionTimersLoop e t rest s)"

definition handleElectionTimers :: "env \<Rightarrow> Time \<Rightarrow> state \<Rightarrow> state outcome" where
  "handleElectionTimers e t s = electionTimersLoop e t (map fst (groups s)) s"

text \<open>\<^verbatim>\<open>stop\<close>: close every peer connection, stop the write task, close \<^verbatim>\<open>stopped\<close>.\<close>

definition stop :: "state \<Rightarrow> state" where
  "stop s = s\<lparr>closedConns := closedConns s @ map fst (nodes s), stopped := True\<rparr>"

subsection \<open>The event loop\<close>

text \<open>
  One iteration of \<^verbatim>\<open>start\<close>: the \<^verbatim>\<open>select\<close> takes an op, an RPC request, an RPC response,
  the write-ready handshake, a write response or the election timer. The handshake case
  sends on \<^verbatim>\<open>writeReady\<close>, which is the write task's channel when \<^verbatim>\<open>len(s.dirtyGroups) > 0\<close>
  and nil otherwise; a send on a nil channel is never selected. The timer fires at a time
  \<open>t\<close> no earlier than \<^verbatim>\<open>nextElectionTimer\<close> after the iteration's start.
\<close>

datatype ChangeMembershipOperation =
  ChangeMembershipAddMember | ChangeMembershipRemoveMember
  | ChangeMembershipAddObserver | ChangeMembershipRemoveObserver

datatype op =
    stopOp
  | createGroupOp group
  | submitCommandOp GroupID bytes
  | changeGroupMembershipOp GroupID ChangeMembershipOperation NodeID
  | unknownOp

datatype input =
    OpInput op
  | RequestInput rpc_Call
  | ResponseInput rpc_Call
  | WriteReadyInput
  | WriteResponseInput writeResponse
  | ElectionTimerInput Time

datatype loop = Continue state | Exit state | Abort crash | NotSelected

definition writeReadyOffered :: "state \<Rightarrow> bool" where
  "writeReadyOffered s = (length (dirtyGroups s) > 0)"

definition continue :: "state outcome \<Rightarrow> loop" where
  "continue r = (case r of Ok s \<Rightarrow> Continue s | Crashed c \<Rightarrow> Abort c)"

definition step :: "env \<Rightarrow> input \<Rightarrow> state \<Rightarrow> loop" where
  "step e i s =
     (case i of
        OpInput opr \<Rightarrow>
          (case opr of
             stopOp \<Rightarrow> Exit (stop s)
           | createGroupOp g \<Rightarrow> continue (createGroup e g s)
           | submitCommandOp gid command \<Rightarrow> continue (submitCommand gid command s)
           | changeGroupMembershipOp gid changeOp nodeID \<Rightarrow> continue (changeGroupMembership gid s)
           | unknownOp \<Rightarrow> continue (strictErrorLog ''unknown op'' s))
      | RequestInput call \<Rightarrow>
          (case ServiceMethod call of
             requestVoteName \<Rightarrow>
               (case (Args call, Reply call) of
                  (VoteArgs req, VoteReply resp) \<Rightarrow> continue (requestVoteRequest req call s)
                | _ \<Rightarrow> Abort TypeAssertion)
           | appendEntriesName \<Rightarrow>
               (case (Args call, Reply call) of
                  (AppendArgs req, AppendReply resp) \<Rightarrow> continue (appendEntriesRequest e req call s)
                | _ \<Rightarrow> Abort TypeAssertion)
           | otherName n \<Rightarrow> continue (strictErrorLog ''unknown rpc request'' s))
      | ResponseInput call \<Rightarrow>
          (case ServiceMethod call of
             requestVoteName \<Rightarrow>
               (case (Args call, Reply call) of
                  (VoteArgs req, VoteReply resp) \<Rightarrow> continue (requestVoteResponse req resp s)
                | _ \<Rightarrow> Abort TypeAssertion)
           | appendEntriesName \<Rightarrow>
               (case (Args call, Reply call) of
                  (AppendArgs req, AppendReply resp) \<Rightarrow> continue (appendEntriesResponse e req resp s)
                | _ \<Rightarrow> Abort TypeAssertion)
           | otherName n \<Rightarrow> continue (strictErrorLog ''unknown rpc response'' s))
      | WriteReadyInput \<Rightarrow>
          if writeReadyOffered s then continue (handleWriteReady s) else NotSelected
      | WriteResponseInput response \<Rightarrow> continue (handleWriteResponse e response s)
      | ElectionTimerInput t \<Rightarrow>
          if now e + nextElectionTimer e s \<le> t then continue (handleElectionTimers e t s)
          else NotSelected)"

text \<open>A run of the loop over a list of inputs, each with what the iteration reads from outside.\<close>

fun run :: "(env \<times> input) list \<Rightarrow> state \<Rightarrow> loop" where
  "run [] s = Continue s"
| "run ((e, i) # rest) s =
     (case step e i s of
        Continue s' \<Rightarrow> run rest s'
      | r \<Rightarrow> r)"

subsection \<open>Concrete configurations, messages and runs\<close>

text \<open>A transport whose calls all succeed, and a configuration in the range the Raft paper suggests.\<close>

definition okTransport :: TransportImpl where
  "okTransport = \<lparr>Listen = (\<lambda>_. None), Connect = (\<lambda>_. None)\<rparr>"

definition paperConfig :: Config where
  "paperConfig =
     \<lparr>Storage = Some (StorageImpl 0), Transport = Some okTransport, Clock = None,
      ElectionTimeoutMin = 150, ElectionTimeoutMax = 300, Strict = False\<rparr>"

definition negativeTimeouts :: Config where
  "negativeTimeouts =
     \<lparr>Storage = Some (StorageImpl 0), Transport = Some okTransport, Clock = None,
      ElectionTimeoutMin = - 2, ElectionTimeoutMax = - 1, Strict = False\<rparr>"

definition node1 :: MultiRaft where
  "node1 = \<lparr>mr_Config = paperConfig\<lparr>Clock := Some RealClock\<rparr>, mr_nodeID = 1\<rparr>"

text \<open>An iteration at time \<open>t\<close> that draws deadline \<open>d\<close> and finds the entries \<open>es\<close> in storage.\<close>

definition iteration :: "Time \<Rightarrow> Time \<Rightarrow> LogEntry list \<Rightarrow> env" where
  "iteration t d es = \<lparr>now = t, nextDeadline = (\<lambda>_. d), GetLogEntries = (\<lambda>_ _ _. es)\<rparr>"

text \<open>A vote request for group 1 from candidate \<open>src\<close> in term \<open>t\<close>, as call number \<open>cid\<close>.\<close>

definition voteRequest :: "NodeID \<Rightarrow> NodeID \<Rightarrow> int \<Rightarrow> RequestVoteRequest" where
  "voteRequest src dst t =
     \<lparr>SrcNode = src, DestNode = dst, rv_GroupID = 1, rv_Term = t,
      CandidateID = src, LastLogIndex = 0, LastLogTerm = 0\<rparr>"

definition voteCall :: "nat \<Rightarrow> NodeID \<Rightarrow> NodeID \<Rightarrow> int \<Rightarrow> rpc_Call" where
  "voteCall cid src dst t =
     \<lparr>callId = cid, ServiceMethod = requestVoteName, Args = VoteArgs (voteRequest src dst t),
      Reply = VoteReply \<lparr>vr_Term = 0, VoteGranted = False\<rparr>, Error = None\<rparr>"

text \<open>An append request for group 1 from leader \<open>src\<close> in term \<open>t\<close>.\<close>

definition appendRequest :: "NodeID \<Rightarrow> NodeID \<Rightarrow> int \<Rightarrow> LogEntry list \<Rightarrow> int \<Rightarrow> AppendEntriesRequest" where
  "appendRequest src dst t es lc =
     \<lparr>SrcNode = src, DestNode = dst, ae_GroupID = 1, ae_Term = t, LeaderID = src,
      PrevLogIndex = 0, PrevLogTerm = 0, LeaderCommit = lc, Entries = es\<rparr>"

definition appendCall :: "nat \<Rightarrow> AppendEntriesRequest \<Rightarrow> rpc_Call" where
  "appendCall cid req =
     \<lparr>callId = cid, ServiceMethod = appendEntriesName, Args = AppendArgs req,
      Reply = AppendReply \<lparr>ar_Term = 0, Success = False\<rparr>, Error = None\<rparr>"

text \<open>The spec's stale-term scenario: a leader of group 1 at term 5.\<close>

definition leaderAtTerm5 :: group where
  "leaderAtTerm5 =
     (newGroup 1 [1, 2, 3])
       \<lparr>electionState := \<lparr>CurrentTerm = 5, VotedFor = 1\<rparr>,
        persistedElectionState := Some \<lparr>CurrentTerm = 5, VotedFor = 1\<rparr>,
        role := RoleLeader,
        votes := Some (\<lambda>n. n = 1 \<or> n = 2),
        currentMembers := Some \<lparr>Members = [1, 2, 3], Observers = []\<rparr>\<rparr>"

definition term5State :: state where
  "term5State = (newState node1)\<lparr>groups := [(1, leaderAtTerm5)]\<rparr>"

text \<open>Observers of a run: the state the loop continues with, and the crash that ended it.\<close>

definition finalState :: "loop \<Rightarrow> state option" where
  "finalState l = (case l of Continue s \<Rightarrow> Some s | _ \<Rightarrow> None)"

definition abortedWith :: "loop \<Rightarrow> crash option" where
  "abortedWith l = (case l of Abort c \<Rightarrow> Some c | _ \<Rightarrow> None)"

definition groupOf :: "loop \<Rightarrow> GroupID \<Rightarrow> group option" where
  "groupOf l gid = (case finalState l of None \<Rightarrow> None | Some s \<Rightarrow> map_of (groups s) gid)"

text \<open>Leaders of group 1 with one and with three voting members, after replication has started.\<close>

definition singleMemberLeader :: group where
  "singleMemberLeader =
     (newGroup 1 [1])
       \<lparr>role := RoleLeader,
        currentMembers := Some \<lparr>Members = [1], Observers = []\<rparr>,
        matchIndex := (\<lambda>_. 0)(1 := 5)\<rparr>"

definition threeMemberLeader :: group where
  "threeMemberLeader =
     (newGroup 1 [1, 2, 3])
       \<lparr>role := RoleLeader,
        currentMembers := Some \<lparr>Members = [1, 2, 3], Observers = []\<rparr>,
        matchIndex := (\<lambda>_. 0)(1 := 3, 2 := 2, 3 := 1)\<rparr>"

text \<open>
  Node 1 creates group 1, grants a vote to node 2 in term 1, hands the changed election
  state to the write task and gets the acknowledgement.
\<close>

definition persistedVoteRun :: "(env \<times> input) list" where
  "persistedVoteRun =
     [(iteration 0 10 [], OpInput (createGroupOp (newGroup 1 [1, 2, 3]))),
      (iteration 1 10 [], RequestInput (voteCall 7 2 1 1)),
      (iteration 2 10 [], WriteReadyInput),
      (iteration 3 10 [], WriteResponseInput
         [(1, \<lparr>wr_electionState = Some \<lparr>CurrentTerm = 1, VotedFor = 0\<rparr>,
               wr_lastIndex = - 1, wr_lastTerm = - 1, wr_entries = []\<rparr>)])]"

text \<open>Node 1 creates group 1 and receives a vote request of term 5, then one of term 3.\<close>

definition staleVoteRun :: "(env \<times> input) list" where
  "staleVoteRun =
     [(iteration 0 10 [], OpInput (createGroupOp (newGroup 1 [1, 2, 3]))),
      (iteration 1 10 [], RequestInput (voteCall 7 2 1 5)),
      (iteration 2 10 [], RequestInput (voteCall 8 3 1 3))]"

text \<open>
  A single-member group on node 1: the election timer fires at the deadline 10, the node
  asks itself for a vote in term 1, grants it, persists it and receives its own granted
  reply, which makes it leader. The deadline drawn on becoming candidate is 20.
\<close>

definition electedRun :: "(env \<times> input) list" where
  "electedRun =
     [(iteration 0 10 [], OpInput (createGroupOp (newGroup 1 [1]))),
      (iteration 5 20 [], ElectionTimerInput 10),
      (iteration 11 20 [], RequestInput (voteCall 7 1 1 1)),
      (iteration 12 20 [], WriteReadyInput),
      (iteration 13 20 [], WriteResponseInput
         [(1, \<lparr>wr_electionState = Some \<lparr>CurrentTerm = 1, VotedFor = 1\<rparr>,
               wr_lastIndex = - 1, wr_lastTerm = - 1, wr_entries = []\<rparr>)]),
      (iteration 14 20 [], ResponseInput
         ((voteCall 7 1 1 1)\<lparr>Reply := VoteReply \<lparr>vr_Term = 1, VoteGranted = True\<rparr>\<rparr>))]"

definition leaderTimerRun :: "(env \<times> input) list" where
  "leaderTimerRun = electedRun @ [(iteration 15 30 [], ElectionTimerInput 20)]"

text \<open>
  A follower of group 1 on node 2 receives a membership-change entry from leader 1,
  persists it, and then learns from the leader that index 1 is committed.
\<close>

definition membershipEntry :: LogEntry where
  "membershipEntry = \<lparr>Term = 1, Index = 1, Type = LogEntryChangeMembership, Payload = []\<rparr>"

definition node2 :: MultiRaft where
  "node2 = \<lparr>mr_Config = paperConfig\<lparr>Clock := Some RealClock\<rparr>, mr_nodeID = 2\<rparr>"

definition membershipCommitRun :: "(env \<times> input) list" where
  "membershipCommitRun =
     [(iteration 0 100 [], OpInput (createGroupOp (newGroup 1 [1, 2, 3]))),
      (iteration 1 100 [], RequestInput (appendCall 4 (appendRequest 1 2 1 [membershipEntry] 0))),
      (iteration 2 100 [], WriteReadyInput),
      (iteration 3 100 [], WriteResponseInput
         [(1, \<lparr>wr_electionState = Some \<lparr>CurrentTerm = 0, VotedFor = 0\<rparr>,
               wr_lastIndex = 1, wr_lastTerm = 1, wr_entries = [membershipEntry]\<rparr>)]),
      (iteration 4 100 [membershipEntry],
         RequestInput (appendCall 5 (appendRequest 1 2 1 [] 1)))]"

text \<open>
  Node 1 creates group 1, persists a granted vote, then receives one command entry from
  the leader and hands it to the write task.
\<close>

definition commandEntry :: LogEntry where
  "commandEntry = \<lparr>Term = 1, Index = 1, Type = LogEntryCommand, Payload = ''x''\<rparr>"

definition drainedRun :: "(env \<times> input) list" where
  "drainedRun =
     persistedVoteRun @
     [(iteration 4 10 [], RequestInput (appendCall 9 (appendRequest 2 1 1 [commandEntry] 0))),
      (iteration 5 10 [], WriteReadyInput)]"

text \<open>
  The condition under which the comments of the \<^verbatim>\<open>group\<close> structure call a group dirty:
  pending entries, or an election state that differs from the persisted one.
\<close>

definition differsFromPersisted :: "group \<Rightarrow> bool" where
  "differsFromPersisted g =
     (0 < length (pendingEntries g) \<or> \<not> Equal (electionState g) (persistedElectionState g))"

text \<open>
  A state with two dirty groups: group 1 has a pending entry and a persisted election
  state, group 2 has an election state that was never persisted and no pending entry.
\<close>

definition entryGroup :: group where
  "entryGroup =
     (newGroup 1 [1, 2, 3])
       \<lparr>electionState := \<lparr>CurrentTerm = 1, VotedFor = 0\<rparr>,
        persistedElectionState := Some \<lparr>CurrentTerm = 1, VotedFor = 0\<rparr>,
        lastLogIndex := 1, lastLogTerm := 1,
        pendingEntries := [commandEntry]\<rparr>"

definition votedGroup :: group where
  "votedGroup = (newGroup 2 [1, 2, 3])\<lparr>electionState := \<lparr>CurrentTerm = 4, VotedFor = 0\<rparr>\<rparr>"

definition twoDirtyState :: state where
  "twoDirtyState =
     (newState node1)\<lparr>groups := [(1, entryGroup), (2, votedGroup)], dirtyGroups := [2, 1]\<rparr>"

text \<open>
  Consistency of the two group tables: \<^verbatim>\<open>dirtyGroups\<close> has distinct keys, each of them is a
  key of \<^verbatim>\<open>groups\<close>, and every group is stored under its own \<^verbatim>\<open>groupID\<close>. In the source this
  holds by construction (\<^verbatim>\<open>dirtyGroups\<close> is a map whose values are the pointers held by
  \<^verbatim>\<open>groups\<close>); for the model it is an invariant of the loop. \<open>sameTables\<close> relates two
  states with the same tables.
\<close>

definition tablesConsistent :: "state \<Rightarrow> bool" where
  "tablesConsistent s =
     (distinct (dirtyGroups s)
      \<and> list_all (\<lambda>gid. map_of (groups s) gid \<noteq> None) (dirtyGroups s)
      \<and> list_all (\<lambda>(k, g). groupID g = k) (groups s))"

definition sameTables :: "state \<Rightarrow> state \<Rightarrow> bool" where
  "sameTables s s' = (groups s' = groups s \<and> dirtyGroups s' = dirtyGroups s)"

section \<open>Construction\<close>

text \<open>
  C9, as amended. \<^verbatim>\<open>NewMultiRaft\<close> fails exactly when the node id is 0, the transport is
  missing, one of the election timeouts is 0, \<^verbatim>\<open>ElectionTimeoutMin > ElectionTimeoutMax\<close>, or
  the transport's \<^verbatim>\<open>Listen\<close> returns an error; when it succeeds on a configuration with a
  nil clock, the clock of the new object is the real clock.
\<close>

theorem NewMultiRaft_fails_iff:
  "((\<exists>err. NewMultiRaft nodeID config = Inl err) \<longleftrightarrow>
      (nodeID = 0 \<or> Transport config = None
       \<or> ElectionTimeoutMin config = 0 \<or> ElectionTimeoutMax config = 0
       \<or> ElectionTimeoutMin config > ElectionTimeoutMax config
       \<or> (\<exists>t err. Transport config = Some t \<and> Listen t nodeID = Some err)))
   \<and> (\<forall>m. NewMultiRaft nodeID config = Inr m \<and> Clock config = None
          \<longrightarrow> Clock (mr_Config m) = Some RealClock)"
  by (auto simp: NewMultiRaft_def Validate_def isSet_def Let_def split: option.splits if_splits)

theorem NewMultiRaft_fails_iff_witness:
  "NewMultiRaft 1 paperConfig = Inr node1 \<and> Clock paperConfig = None
   \<and> Clock (mr_Config node1) = Some RealClock
   \<and> NewMultiRaft 0 paperConfig = Inl InvalidNodeID"
  using NewMultiRaft_fails_iff [of 1 paperConfig]
  by (simp add: NewMultiRaft_def Validate_def isSet_def paperConfig_def okTransport_def node1_def)

text \<open>
  The claim as stated fails: with both timeouts negative (neither is \<open>> 0\<close>) and
  \<^verbatim>\<open>Min \<le> Max\<close>, construction succeeds.
\<close>

theorem NewMultiRaft_negative_timeouts_accepted:
  "NewMultiRaft 1 negativeTimeouts =
     Inr \<lparr>mr_Config = negativeTimeouts\<lparr>Clock := Some RealClock\<rparr>, mr_nodeID = 1\<rparr>
   \<and> \<not> (0 < ElectionTimeoutMin negativeTimeouts) \<and> \<not> (0 < ElectionTimeoutMax negativeTimeouts)"
  by (simp add: NewMultiRaft_def Validate_def isSet_def negativeTimeouts_def okTransport_def)

section \<open>Handlers on a stale term and on an unknown group\<close>

text \<open>
  C7. An \<^verbatim>\<open>AppendEntries\<close> request for an existing group whose term is below the group's
  current term is answered at once, with the current term and \<open>Success = False\<close>; the
  resulting state is the old one with that one send added, so the group table (the
  group's pending entries, log position, election state and commit index) and the dirty
  set are unchanged.
\<close>

theorem appendEntriesRequest_stale_term:
  assumes "map_of (groups s) (ae_GroupID req) = Some g"
    and "ae_Term req < CurrentTerm (electionState g)"
  shows "appendEntriesRequest e req call s =
           Ok (s\<lparr>doneCalls := doneCalls s @
                 [call\<lparr>Reply := AppendReply
                    \<lparr>ar_Term = CurrentTerm (electionState g), Success = False\<rparr>\<rparr>]\<rparr>)
         \<and> (\<forall>s'. appendEntriesRequest e req call s = Ok s'
               \<longrightarrow> groups s' = groups s \<and> dirtyGroups s' = dirtyGroups s
                   \<and> Events s' = Events s \<and> writeTaskIn s' = writeTaskIn s
                   \<and> requestsSent s' = requestsSent s)"
  using assms by (auto simp add: appendEntriesRequest_def)

theorem appendEntriesRequest_stale_term_witness:
  "map_of (groups term5State) (ae_GroupID (appendRequest 2 1 3 [] 0)) = Some leaderAtTerm5
   \<and> ae_Term (appendRequest 2 1 3 [] 0) < CurrentTerm (electionState leaderAtTerm5)
   \<and> appendEntriesRequest (iteration 0 10 []) (appendRequest 2 1 3 [] 0)
        (appendCall 4 (appendRequest 2 1 3 [] 0)) term5State =
       Ok (term5State\<lparr>doneCalls :=
             [(appendCall 4 (appendRequest 2 1 3 [] 0))
                \<lparr>Reply := AppendReply \<lparr>ar_Term = 5, Success = False\<rparr>\<rparr>]\<rparr>)"
proof -
  have g: "map_of (groups term5State) (ae_GroupID (appendRequest 2 1 3 [] 0)) = Some leaderAtTerm5"
    by (simp add: term5State_def appendRequest_def)
  have t: "ae_Term (appendRequest 2 1 3 [] 0) < CurrentTerm (electionState leaderAtTerm5)"
    by (simp add: appendRequest_def leaderAtTerm5_def)
  have d: "doneCalls term5State = []"
    by (simp add: term5State_def newState_def)
  have c: "CurrentTerm (electionState leaderAtTerm5) = 5"
    by (simp add: leaderAtTerm5_def)
  have "appendEntriesRequest (iteration 0 10 []) (appendRequest 2 1 3 [] 0)
          (appendCall 4 (appendRequest 2 1 3 [] 0)) term5State =
        Ok (term5State\<lparr>doneCalls := doneCalls term5State @
              [(appendCall 4 (appendRequest 2 1 3 [] 0))
                 \<lparr>Reply := AppendReply
                    \<lparr>ar_Term = CurrentTerm (electionState leaderAtTerm5), Success = False\<rparr>\<rparr>]\<rparr>)"
    using appendEntriesRequest_stale_term [OF g t] by (rule conjunct1)
  then have "appendEntriesRequest (iteration 0 10 []) (appendRequest 2 1 3 [] 0)
          (appendCall 4 (appendRequest 2 1 3 [] 0)) term5State =
        Ok (term5State\<lparr>doneCalls :=
              [(appendCall 4 (appendRequest 2 1 3 [] 0))
                 \<lparr>Reply := AppendReply \<lparr>ar_Term = 5, Success = False\<rparr>\<rparr>]\<rparr>)"
    unfolding d c by simp
  with g t show ?thesis by (intro conjI)
qed

text \<open>
  C10. For a group id that is not in the group table, the vote-request handler completes
  the call with an unknown-group error and changes nothing else, while
  \<^verbatim>\<open>submitCommand\<close> and \<^verbatim>\<open>changeGroupMembership\<close> (through \<^verbatim>\<open>addLogEntry\<close>), the
  \<^verbatim>\<open>AppendEntries\<close> request handler, the vote-response handler and the \<^verbatim>\<open>AppendEntries\<close>
  response handler dereference the nil lookup result and crash.
\<close>

theorem unknown_group_only_vote_request_guards:
  assumes "map_of (groups s) gid = None"
    and "rv_GroupID vreq = gid" and "ae_GroupID areq = gid"
  shows "requestVoteRequest vreq call s =
           Ok (s\<lparr>doneCalls := doneCalls s @ [call\<lparr>Error := Some (UnknownGroup gid)\<rparr>]\<rparr>)
         \<and> submitCommand gid command s = Crashed NilDereference
         \<and> changeGroupMembership gid s = Crashed NilDereference
         \<and> appendEntriesRequest e areq call s = Crashed NilDereference
         \<and> requestVoteResponse vreq vresp s = Crashed NilDereference
         \<and> appendEntriesResponse e areq aresp s = Crashed NilDereference"
  using assms
  by (simp add: requestVoteRequest_def submitCommand_def changeGroupMembership_def addLogEntry_def
      appendEntriesRequest_def requestVoteResponse_def appendEntriesResponse_def)

theorem unknown_group_only_vote_request_guards_witness:
  "map_of (groups (newState node1)) 1 = None
   \<and> rv_GroupID (voteRequest 2 1 1) = 1 \<and> ae_GroupID (appendRequest 2 1 1 [] 0) = 1
   \<and> requestVoteRequest (voteRequest 2 1 1) (voteCall 7 2 1 1) (newState node1) =
        Ok ((newState node1)\<lparr>doneCalls := [(voteCall 7 2 1 1)\<lparr>Error := Some (UnknownGroup 1)\<rparr>]\<rparr>)
   \<and> submitCommand 1 ''x'' (newState node1) = Crashed NilDereference
   \<and> changeGroupMembership 1 (newState node1) = Crashed NilDereference
   \<and> appendEntriesRequest (iteration 0 10 []) (appendRequest 2 1 1 [] 0)
        (appendCall 8 (appendRequest 2 1 1 [] 0)) (newState node1) = Crashed NilDereference
   \<and> requestVoteResponse (voteRequest 2 1 1) \<lparr>vr_Term = 1, VoteGranted = True\<rparr> (newState node1)
        = Crashed NilDereference
   \<and> appendEntriesResponse (iteration 0 10 []) (appendRequest 2 1 1 [] 0)
        \<lparr>ar_Term = 1, Success = True\<rparr> (newState node1) = Crashed NilDereference"
proof -
  have g: "map_of (groups (newState node1)) 1 = None" by (simp add: newState_def)
  have v: "rv_GroupID (voteRequest 2 1 1) = 1" by (simp add: voteRequest_def)
  have a: "ae_GroupID (appendRequest 2 1 1 [] 0) = 1" by (simp add: appendRequest_def)
  have d: "doneCalls (newState node1) = []" by (simp add: newState_def)
  note th = unknown_group_only_vote_request_guards [OF g v a,
      of "voteCall 7 2 1 1" "''x''" "iteration 0 10 []" "\<lparr>vr_Term = 1, VoteGranted = True\<rparr>"
         "\<lparr>ar_Term = 1, Success = True\<rparr>"]
  note th2 = unknown_group_only_vote_request_guards [OF g v a,
      of "appendCall 8 (appendRequest 2 1 1 [] 0)" "''x''" "iteration 0 10 []"
         "\<lparr>vr_Term = 1, VoteGranted = True\<rparr>" "\<lparr>ar_Term = 1, Success = True\<rparr>"]
  from th have "requestVoteRequest (voteRequest 2 1 1) (voteCall 7 2 1 1) (newState node1) =
        Ok ((newState node1)\<lparr>doneCalls := [(voteCall 7 2 1 1)\<lparr>Error := Some (UnknownGroup 1)\<rparr>]\<rparr>)"
    unfolding d by simp
  with th th2 g v a show ?thesis by blast
qed

section \<open>The group tables stay consistent\<close>

text \<open>
  Every handler leaves the tables consistent, so every state the loop reaches from
  \<open>newState\<close> has a dirty set with distinct keys that all name installed groups.
\<close>

lemma sameTables_refl: "sameTables s s"
  by (simp add: sameTables_def)

lemma sameTables_trans: "sameTables s s1 \<Longrightarrow> sameTables s1 s2 \<Longrightarrow> sameTables s s2"
  by (simp add: sameTables_def)

lemma sameTables_consistent: "sameTables s s' \<Longrightarrow> tablesConsistent s \<Longrightarrow> tablesConsistent s'"
  by (simp add: sameTables_def tablesConsistent_def)

lemma keysMatch_update:
  "list_all (\<lambda>(k, g). groupID g = k) al \<Longrightarrow> groupID g = k
     \<Longrightarrow> list_all (\<lambda>(k, g). groupID g = k) (AList.update k g al)"
  by (induction al) auto

lemma keysMatch_lookup:
  "list_all (\<lambda>(k, g). groupID g = k) al \<Longrightarrow> map_of al k = Some g \<Longrightarrow> groupID g = k"
  by (auto dest: map_of_SomeD simp: list_all_iff)

lemma tablesConsistent_lookup:
  "tablesConsistent s \<Longrightarrow> map_of (groups s) k = Some g \<Longrightarrow> groupID g = k"
  by (auto simp: tablesConsistent_def intro: keysMatch_lookup)

lemma tablesConsistent_putGroup:
  "tablesConsistent s \<Longrightarrow> groupID g = k \<Longrightarrow> tablesConsistent (putGroup k g s)"
proof -
  assume c: "tablesConsistent s" and k: "groupID g = k"
  have "list_all (\<lambda>(k, g). groupID g = k) (AList.update k g (groups s))"
    using c k by (simp add: tablesConsistent_def keysMatch_update)
  moreover have "list_all (\<lambda>gid. map_of (AList.update k g (groups s)) gid \<noteq> None) (dirtyGroups s)"
    using c by (auto simp: tablesConsistent_def update_conv' list_all_iff)
  ultimately show ?thesis
    using c by (simp add: tablesConsistent_def putGroup_def)
qed

lemma tablesConsistent_updateDirtyStatus:
  "tablesConsistent s \<Longrightarrow> map_of (groups s) (groupID g) \<noteq> None
     \<Longrightarrow> tablesConsistent (updateDirtyStatus g s)"
  by (auto simp: tablesConsistent_def updateDirtyStatus_def Let_def list_all_iff distinct_removeAll)

lemma putGroup_lookup: "map_of (groups (putGroup k g s)) k' = (if k' = k then Some g else map_of (groups s) k')"
  by (simp add: putGroup_def update_conv')

lemma updateDirtyStatus_groups: "groups (updateDirtyStatus g s) = groups s"
  by (simp add: updateDirtyStatus_def Let_def)

text \<open>The step every group handler ends with.\<close>

lemma tablesConsistent_store:
  assumes "tablesConsistent s" and "sameTables s s1"
    and "map_of (groups s) k = Some g0" and "groupID g = k"
  shows "tablesConsistent (putGroup k g (updateDirtyStatus g s1))"
    and "tablesConsistent (putGroup k g s1)"
proof -
  have c1: "tablesConsistent s1" using assms(1,2) by (rule sameTables_consistent [rotated])
  have l: "map_of (groups s1) (groupID g) \<noteq> None"
    using assms(2,3,4) by (simp add: sameTables_def)
  show "tablesConsistent (putGroup k g (updateDirtyStatus g s1))"
    using tablesConsistent_updateDirtyStatus [OF c1 l] assms(4) by (rule tablesConsistent_putGroup)
  show "tablesConsistent (putGroup k g s1)"
    using c1 assms(4) by (rule tablesConsistent_putGroup)
qed

lemma sendEvent_tables: "sendEvent ev s = Ok s' \<Longrightarrow> sameTables s s'"
  by (auto simp: sendEvent_def sameTables_def split: if_splits)

lemma strictErrorLog_tables: "strictErrorLog msg s = Ok s' \<Longrightarrow> sameTables s s'"
  by (auto simp: strictErrorLog_def sameTables_def split: if_splits)

lemma andThen_Ok: "andThen m f = Ok y \<Longrightarrow> \<exists>x. m = Ok x \<and> f x = Ok y"
  by (cases m) simp_all

lemma broadcastEntriesToNodes_tables:
  "broadcastEntriesToNodes g entries ns s = Ok s' \<Longrightarrow> sameTables s s'"
proof (induction ns arbitrary: s)
  case Nil
  then show ?case by (simp add: sameTables_def)
next
  case (Cons i rest)
  then show ?case
    by (auto split: option.splits simp: sameTables_def dest!: Cons.IH)
qed

lemma broadcastEntries_tables: "broadcastEntries g entries s = Ok s' \<Longrightarrow> sameTables s s'"
  by (auto simp: broadcastEntries_def split: if_splits option.splits
           dest!: andThen_Ok broadcastEntriesToNodes_tables intro: sameTables_trans sameTables_refl)

lemma commitLoop_tables: "commitLoop entries s = Ok s' \<Longrightarrow> sameTables s s'"
proof (induction entries arbitrary: s)
  case Nil
  then show ?case by (simp add: sameTables_def)
next
  case (Cons entry rest)
  then show ?case
    by (auto split: LogEntryType.splits dest!: andThen_Ok sendEvent_tables Cons.IH
             intro: sameTables_trans)
qed

lemma commitEntries_tables:
  "commitEntries e g lc s = Ok (g', s') \<Longrightarrow> sameTables s s' \<and> groupID g' = groupID g"
  by (auto simp: commitEntries_def Let_def split: if_splits
           dest!: andThen_Ok commitLoop_tables broadcastEntries_tables
           intro: sameTables_trans sameTables_refl)

lemma resolvePendingCall_tables: "resolvePendingCall g c s = (b, s') \<Longrightarrow> sameTables s s'"
  by (auto simp: resolvePendingCall_def sameTables_def split: option.splits if_splits)

lemma addPendingCall_tables:
  "addPendingCall g c s = (g', s') \<Longrightarrow> sameTables s s' \<and> groupID g' = groupID g"
  by (auto simp: addPendingCall_def Let_def split: prod.splits if_splits
           dest!: resolvePendingCall_tables)

lemma resolveLoop_tables: "resolveLoop g cs s = (kept, s') \<Longrightarrow> sameTables s s'"
proof (induction cs arbitrary: s kept s')
  case Nil
  then show ?case by (simp add: sameTables_def)
next
  case (Cons c cs)
  obtain b s1 where r: "resolvePendingCall g c s = (b, s1)" by (cases "resolvePendingCall g c s")
  have t1: "sameTables s s1" using r by (rule resolvePendingCall_tables)
  show ?case
  proof (cases b)
    case True
    with Cons.prems r have "resolveLoop g cs (s1\<lparr>doneCalls := doneCalls s1 @ [pc_call c]\<rparr>) = (kept, s')"
      by simp
    from Cons.IH [OF this] t1 show ?thesis by (simp add: sameTables_def)
  next
    case False
    obtain k2 s2 where r2: "resolveLoop g cs s1 = (k2, s2)" by (cases "resolveLoop g cs s1")
    with Cons.prems r False have "s' = s2" by simp
    with Cons.IH [OF r2] t1 show ?thesis by (simp add: sameTables_def)
  qed
qed

lemma requestVotes_tables: "requestVotes g ns s = Ok s' \<Longrightarrow> sameTables s s'"
proof (induction ns arbitrary: s)
  case Nil
  then show ?case by (simp add: sameTables_def)
next
  case (Cons i rest)
  then show ?case
    by (auto split: option.splits simp: sameTables_def dest!: Cons.IH)
qed

lemma connectMembers_tables: "connectMembers ms s = Ok (s', err) \<Longrightarrow> sameTables s s'"
proof (induction ms arbitrary: s)
  case Nil
  then show ?case by (simp add: sameTables_def)
next
  case (Cons m rest)
  then show ?case
    by (auto split: option.splits simp: sameTables_def dest!: Cons.IH)
qed

lemma countVotes_tables:
  "countVotes g s = Ok (g', s') \<Longrightarrow> sameTables s s' \<and> groupID g' = groupID g"
  by (auto simp: countVotes_def Let_def split: if_splits option.splits
           dest!: andThen_Ok sendEvent_tables intro: sameTables_refl)

lemma becomeCandidate_tables:
  "becomeCandidate e g s = Ok (g', s')
     \<Longrightarrow> groupID g' = groupID g \<and> (\<exists>s1. sameTables s s1 \<and> s' = updateDirtyStatus g' s1)"
  by (auto simp: becomeCandidate_def Let_def updateElectionDeadline_def split: if_splits
           dest!: andThen_Ok requestVotes_tables)

lemma sameTables_fields:
  "sameTables s (s\<lparr>opResults := a\<rparr>)"
  "sameTables s (s\<lparr>doneCalls := b\<rparr>)"
  "sameTables s (s\<lparr>writeTaskIn := c\<rparr>)"
  by (simp_all add: sameTables_def)

lemma createGroup_consistent:
  assumes "tablesConsistent s" and "createGroup e g s = Ok s'"
  shows "tablesConsistent s'"
proof (cases "map_of (groups s) (groupID g) \<noteq> None")
  case True
  with assms(2) have "s' = s\<lparr>opResults := opResults s @ [Some (GroupExists (groupID g))]\<rparr>"
    by (simp add: createGroup_def)
  then show ?thesis using sameTables_fields(1) assms(1) by (metis sameTables_consistent)
next
  case False
  with assms(2) have "andThen (connectMembers (Members (committedMembers g)) s) (\<lambda>(s, err).
        if err \<noteq> None then Ok (s\<lparr>opResults := opResults s @ [err]\<rparr>)
        else let g = updateElectionDeadline e g;
                 s = putGroup (groupID g) g s
             in Ok (s\<lparr>opResults := opResults s @ [None]\<rparr>)) = Ok s'"
    by (simp add: createGroup_def)
  then obtain x where c0: "connectMembers (Members (committedMembers g)) s = Ok x"
    and r0: "(\<lambda>(s, err).
        if err \<noteq> None then Ok (s\<lparr>opResults := opResults s @ [err]\<rparr>)
        else let g = updateElectionDeadline e g;
                 s = putGroup (groupID g) g s
             in Ok (s\<lparr>opResults := opResults s @ [None]\<rparr>)) x = Ok s'"
    by (blast dest: andThen_Ok)
  obtain s1 err where x: "x = (s1, err)" by (cases x)
  have c1: "tablesConsistent s1"
    using connectMembers_tables [OF c0 [unfolded x]] assms(1) by (rule sameTables_consistent)
  show ?thesis
  proof (cases "err \<noteq> None")
    case True
    with r0 x have "s' = s1\<lparr>opResults := opResults s1 @ [err]\<rparr>" by simp
    then show ?thesis using sameTables_fields(1) c1 by (metis sameTables_consistent)
  next
    case False
    define s2 where "s2 = putGroup (groupID g) (updateElectionDeadline e g) s1"
    have c2: "tablesConsistent s2"
      unfolding s2_def using c1 by (rule tablesConsistent_putGroup) (simp add: updateElectionDeadline_def)
    have "s' = s2\<lparr>opResults := opResults s2 @ [None]\<rparr>"
      using r0 x False by (simp add: Let_def s2_def updateElectionDeadline_def)
    then show ?thesis using sameTables_fields(1) c2 by (metis sameTables_consistent)
  qed
qed

lemma addLogEntry_consistent:
  assumes "tablesConsistent s" and "addLogEntry gid ty payload s = Ok (s', err)"
  shows "tablesConsistent s'"
proof -
  from assms(2) obtain g where g: "map_of (groups s) gid = Some g"
    by (cases "map_of (groups s) gid") (simp_all add: addLogEntry_def)
  have k: "groupID g = gid" using assms(1) g by (rule tablesConsistent_lookup)
  show ?thesis
  proof (cases "role g \<noteq> RoleLeader")
    case True
    with assms g show ?thesis by (simp add: addLogEntry_def)
  next
    case False
    from assms(2) g False
    have "\<exists>g'. s' = putGroup gid g' (updateDirtyStatus g' s) \<and> groupID g' = groupID g"
      by (fastforce simp: addLogEntry_def Let_def)
    then obtain g' where s': "s' = putGroup gid g' (updateDirtyStatus g' s)"
      and k': "groupID g' = groupID g"
      by blast
    from tablesConsistent_store(1) [OF assms(1) sameTables_refl g] k k' show ?thesis
      unfolding s' by simp
  qed
qed

lemma ops_consistent:
  assumes "tablesConsistent s"
  shows "submitCommand gid c s = Ok s' \<Longrightarrow> tablesConsistent s'"
    and "changeGroupMembership gid s = Ok s' \<Longrightarrow> tablesConsistent s'"
proof -
  have *: "tablesConsistent s'"
    if "andThen (addLogEntry gid ty p s) (\<lambda>(s, err). Ok (s\<lparr>opResults := opResults s @ [err]\<rparr>)) = Ok s'"
    for ty p
  proof -
    from that obtain x where a: "addLogEntry gid ty p s = Ok x"
      and r: "(\<lambda>(s, err). Ok (s\<lparr>opResults := opResults s @ [err]\<rparr>)) x = Ok s'"
      by (blast dest: andThen_Ok)
    obtain s1 err where x: "x = (s1, err)" by (cases x)
    have "tablesConsistent s1" using assms a [unfolded x] by (rule addLogEntry_consistent)
    moreover have "s' = s1\<lparr>opResults := opResults s1 @ [err]\<rparr>" using r x by simp
    ultimately show ?thesis using sameTables_fields(1) by (metis sameTables_consistent)
  qed
  show "submitCommand gid c s = Ok s' \<Longrightarrow> tablesConsistent s'"
    unfolding submitCommand_def by (rule *)
  show "changeGroupMembership gid s = Ok s' \<Longrightarrow> tablesConsistent s'"
    unfolding changeGroupMembership_def by (rule *)
qed

lemma store_after_frame:
  assumes "tablesConsistent s" and "map_of (groups s) k = Some g0"
    and "sameTables s s1" and "groupID g = groupID g0"
  shows "tablesConsistent (putGroup k g (updateDirtyStatus g s1))"
    and "tablesConsistent (putGroup k g s1)"
proof -
  have "groupID g0 = k" using assms(1,2) by (rule tablesConsistent_lookup)
  then have "groupID g = k" using assms(4) by simp
  then show "tablesConsistent (putGroup k g (updateDirtyStatus g s1))"
    and "tablesConsistent (putGroup k g s1)"
    using tablesConsistent_store [OF assms(1,3,2)] by blast+
qed

lemma addPendingCall_store:
  assumes "tablesConsistent s" and "map_of (groups s) k = Some g0" and "groupID g = groupID g0"
  shows "tablesConsistent
           (putGroup k (fst (addPendingCall g pc s))
              (updateDirtyStatus (fst (addPendingCall g pc s)) (snd (addPendingCall g pc s))))"
proof -
  obtain g2 s2 where a: "addPendingCall g pc s = (g2, s2)" by (cases "addPendingCall g pc s")
  from addPendingCall_tables [OF a] assms(3) have "sameTables s s2" "groupID g2 = groupID g0"
    by simp_all
  with store_after_frame(1) [OF assms(1,2)] show ?thesis by (simp add: a)
qed

lemma requestVoteRequest_consistent:
  assumes "tablesConsistent s" and "requestVoteRequest req call s = Ok s'"
  shows "tablesConsistent s'"
proof (cases "map_of (groups s) (rv_GroupID req)")
  case None
  with assms(2) have "s' = s\<lparr>doneCalls := doneCalls s @ [call\<lparr>Error := Some (UnknownGroup (rv_GroupID req))\<rparr>]\<rparr>"
    by (simp add: requestVoteRequest_def)
  then show ?thesis using sameTables_fields(2) assms(1) by (metis sameTables_consistent)
next
  case (Some g)
  note st = addPendingCall_store [OF assms(1) Some]
  from assms(2) Some show ?thesis
    by (auto simp: requestVoteRequest_def Let_def split_def split: if_splits intro!: st)
qed

lemma requestVoteResponse_consistent:
  assumes "tablesConsistent s" and "requestVoteResponse req resp s = Ok s'"
  shows "tablesConsistent s'"
proof -
  from assms(2) obtain g where g: "map_of (groups s) (rv_GroupID req) = Some g"
    by (cases "map_of (groups s) (rv_GroupID req)") (simp_all add: requestVoteResponse_def)
  show ?thesis
  proof (cases "vr_Term resp < CurrentTerm (electionState g)")
    case True
    with assms g show ?thesis by (simp add: requestVoteResponse_def)
  next
    case False
    with assms(2) g obtain g1 where
      w: "(if VoteGranted resp
           then (case votes g of
                   None \<Rightarrow> Crashed NilMapAssignment
                 | Some v \<Rightarrow> Ok (g\<lparr>votes := Some (v(DestNode req := VoteGranted resp))\<rparr>))
           else Ok g) = Ok g1"
      and r: "andThen (countVotes g1 s)
                (\<lambda>(g, s). Ok (putGroup (rv_GroupID req) g (updateDirtyStatus g s))) = Ok s'"
      by (auto simp: requestVoteResponse_def dest!: andThen_Ok)
    from w have k1: "groupID g1 = groupID g"
      by (auto split: if_splits option.splits)
    from r obtain x where c: "countVotes g1 s = Ok x"
      and f: "(\<lambda>(g, s). Ok (putGroup (rv_GroupID req) g (updateDirtyStatus g s))) x = Ok s'"
      by (blast dest: andThen_Ok)
    obtain g2 s2 where x: "x = (g2, s2)" by (cases x)
    from countVotes_tables [OF c [unfolded x]] k1
    have "sameTables s s2" "groupID g2 = groupID g" by simp_all
    moreover from f x have "s' = putGroup (rv_GroupID req) g2 (updateDirtyStatus g2 s2)" by simp
    ultimately show ?thesis using store_after_frame(1) [OF assms(1) g] by blast
  qed
qed

lemma appendEntriesResponse_consistent:
  assumes "tablesConsistent s" and "appendEntriesResponse e req resp s = Ok s'"
  shows "tablesConsistent s'"
proof -
  from assms(2) obtain g where g: "map_of (groups s) (ae_GroupID req) = Some g"
    by (cases "map_of (groups s) (ae_GroupID req)") (simp_all add: appendEntriesResponse_def)
  define g1 where "g1 =
     (if Success resp
      then (if length (Entries req) > 0
            then let lastIndex = Index (last (Entries req))
                 in g\<lparr>nextIndex := (nextIndex g)(DestNode req := lastIndex + 1),
                      matchIndex := (matchIndex g)(DestNode req := lastIndex)\<rparr>
            else g)
      else g\<lparr>nextIndex := (nextIndex g)(DestNode req := nextIndex g (DestNode req) - 1)\<rparr>)"
  have k1: "groupID g1 = groupID g" by (simp add: g1_def Let_def)
  have "appendEntriesResponse e req resp s =
          andThen (findQuorumIndex g1) (\<lambda>q.
            andThen (commitEntries e g1 q s) (\<lambda>(g, s). Ok (putGroup (ae_GroupID req) g s)))"
    by (simp add: appendEntriesResponse_def g g1_def Let_def)
  with assms(2) obtain q where
    r: "andThen (commitEntries e g1 q s)
              (\<lambda>(g, s). Ok (putGroup (ae_GroupID req) g s)) = Ok s'"
    by (auto dest: andThen_Ok)
  from r obtain x where c: "commitEntries e g1 q s = Ok x"
    and f: "(\<lambda>(g, s). Ok (putGroup (ae_GroupID req) g s)) x = Ok s'"
    by (blast dest: andThen_Ok)
  obtain g2 s2 where x: "x = (g2, s2)" by (cases x)
  from commitEntries_tables [OF c [unfolded x]] k1
  have "sameTables s s2" "groupID g2 = groupID g" by simp_all
  moreover from f x have "s' = putGroup (ae_GroupID req) g2 s2" by simp
  ultimately show ?thesis using store_after_frame(2) [OF assms(1) g] by blast
qed

lemma appendEntriesRequest_tail:
  assumes r: "andThen (commitEntries e (fst (addPendingCall g pc (updateDirtyStatus g s))) lc
                         (snd (addPendingCall g pc (updateDirtyStatus g s))))
                (\<lambda>x. Ok (putGroup k (fst x) (snd x))) = Ok s'"
    and c: "tablesConsistent s" and l: "map_of (groups s) k = Some g0"
    and i: "groupID g = groupID g0"
  shows "tablesConsistent s'"
proof -
  have k: "groupID g = k" using tablesConsistent_lookup [OF c l] i by simp
  have c1: "tablesConsistent (updateDirtyStatus g s)"
    using c by (rule tablesConsistent_updateDirtyStatus) (simp add: k l)
  obtain g3 s3 where a: "addPendingCall g pc (updateDirtyStatus g s) = (g3, s3)"
    by (cases "addPendingCall g pc (updateDirtyStatus g s)")
  from addPendingCall_tables [OF a] have t3: "sameTables (updateDirtyStatus g s) s3"
    and k3: "groupID g3 = groupID g" by simp_all
  from r [unfolded a] obtain x where ce: "commitEntries e g3 lc s3 = Ok x"
    and s': "Ok (putGroup k (fst x) (snd x)) = Ok s'"
    by (auto dest: andThen_Ok)
  obtain g4 s4 where x: "x = (g4, s4)" by (cases x)
  from commitEntries_tables [OF ce [unfolded x]] have t4: "sameTables s3 s4"
    and k4: "groupID g4 = groupID g3" by simp_all
  have "tablesConsistent s4"
    using sameTables_trans [OF t3 t4] c1 by (rule sameTables_consistent)
  then have "tablesConsistent (putGroup k g4 s4)"
    by (rule tablesConsistent_putGroup) (simp add: k4 k3 k)
  with s' x show ?thesis by simp
qed

lemma appendEntriesRequest_consistent:
  assumes "tablesConsistent s" and "appendEntriesRequest e req call s = Ok s'"
  shows "tablesConsistent s'"
proof -
  from assms(2) obtain g where g: "map_of (groups s) (ae_GroupID req) = Some g"
    by (cases "map_of (groups s) (ae_GroupID req)") (simp_all add: appendEntriesRequest_def)
  show ?thesis
  proof (cases "ae_Term req < CurrentTerm (electionState g)")
    case True
    with assms(2) g have "s' = s\<lparr>doneCalls := doneCalls s @
                      [call\<lparr>Reply := AppendReply
                         \<lparr>ar_Term = CurrentTerm (electionState g), Success = False\<rparr>\<rparr>]\<rparr>"
      by (simp add: appendEntriesRequest_def)
    then show ?thesis using sameTables_fields(2) assms(1) by (metis sameTables_consistent)
  next
    case False
    with assms g show ?thesis
      by (auto simp: appendEntriesRequest_def Let_def split_def split: if_splits
               elim!: appendEntriesRequest_tail)
  qed
qed

lemma writeReadyLoop_consistent:
  "tablesConsistent s \<Longrightarrow> writeReadyLoop ds wreq s = Ok (wreq', s') \<Longrightarrow> tablesConsistent s'"
proof (induction ds arbitrary: wreq s)
  case Nil
  then show ?case by simp
next
  case (Cons gid rest)
  from Cons.prems(2) obtain g where g: "map_of (groups s) gid = Some g"
    by (cases "map_of (groups s) gid") simp_all
  have k: "groupID g = gid" using Cons.prems(1) g by (rule tablesConsistent_lookup)
  define g' where "g' = (if length (pendingEntries g) > 0 then g\<lparr>pendingEntries := []\<rparr> else g)"
  have k': "groupID g' = gid" using k by (simp add: g'_def)
  from Cons.prems(2) g obtain wreq1 where
    r: "writeReadyLoop rest wreq1 (putGroup gid g' s) = Ok (wreq', s')"
    by (auto simp: Let_def g'_def split: if_splits)
  have "tablesConsistent (putGroup gid g' s)"
    using Cons.prems(1) k' by (rule tablesConsistent_putGroup)
  then show ?case using r by (rule Cons.IH)
qed

lemma handleWriteReady_consistent:
  assumes "tablesConsistent s" and "handleWriteReady s = Ok s'"
  shows "tablesConsistent s'"
proof -
  from assms(2) obtain x where l: "writeReadyLoop (dirtyGroups s) [] s = Ok x"
    and f: "(\<lambda>(wreq, s). Ok (s\<lparr>writeTaskIn := writeTaskIn s @ [wreq]\<rparr>)) x = Ok s'"
    unfolding handleWriteReady_def by (blast dest: andThen_Ok)
  obtain wreq s1 where x: "x = (wreq, s1)" by (cases x)
  have "tablesConsistent s1" using assms(1) l [unfolded x] by (rule writeReadyLoop_consistent)
  moreover from f x have "s' = s1\<lparr>writeTaskIn := writeTaskIn s1 @ [wreq]\<rparr>" by simp
  ultimately show ?thesis using sameTables_fields(3) by (metis sameTables_consistent)
qed

lemma writeResponseGroup_consistent:
  assumes "tablesConsistent s" and "writeResponseGroup e gid pg s = Ok s'"
  shows "tablesConsistent s'"
proof -
  from assms(2) obtain g where g: "map_of (groups s) gid = Some g"
    by (cases "map_of (groups s) gid") (simp_all add: writeResponseGroup_def)
  define g1 where "g1 = (if wr_electionState pg \<noteq> None
                   then g\<lparr>persistedElectionState := wr_electionState pg\<rparr> else g)"
  have k1: "groupID g1 = groupID g" by (simp add: g1_def)
  have "writeResponseGroup e gid pg s =
     andThen
       (if wr_lastIndex pg \<noteq> - 1
        then andThen (broadcastEntries g1 (wr_entries pg) s) (\<lambda>s.
               Ok (g1\<lparr>persistedLastIndex := wr_lastIndex pg,
                     persistedLastTerm := wr_lastTerm pg\<rparr>, s))
        else Ok (g1, s))
       (\<lambda>(g, s). andThen (commitEntries e g (leaderCommitIndex g) s) (\<lambda>(g, s).
          let (kept, s) = resolveLoop g (pendingCalls g) s;
              g = g\<lparr>pendingCalls := kept\<rparr>;
              s = updateDirtyStatus g s
          in Ok (putGroup gid g s)))"
    by (simp add: writeResponseGroup_def g g1_def Let_def)
  with assms(2) obtain x where
    b: "(if wr_lastIndex pg \<noteq> - 1
        then andThen (broadcastEntries g1 (wr_entries pg) s) (\<lambda>s.
               Ok (g1\<lparr>persistedLastIndex := wr_lastIndex pg,
                     persistedLastTerm := wr_lastTerm pg\<rparr>, s))
        else Ok (g1, s)) = Ok x"
    and r: "(\<lambda>(g, s). andThen (commitEntries e g (leaderCommitIndex g) s) (\<lambda>(g, s).
          let (kept, s) = resolveLoop g (pendingCalls g) s;
              g = g\<lparr>pendingCalls := kept\<rparr>;
              s = updateDirtyStatus g s
          in Ok (putGroup gid g s))) x = Ok s'"
    by (auto dest: andThen_Ok)
  obtain g2 s2 where x: "x = (g2, s2)" by (cases x)
  from b x have t2: "sameTables s s2" and k2: "groupID g2 = groupID g"
    using k1 by (auto split: if_splits dest!: andThen_Ok broadcastEntries_tables intro: sameTables_refl)
  from r x obtain y where ce: "commitEntries e g2 (leaderCommitIndex g2) s2 = Ok y"
    and f: "(\<lambda>(g, s).
          let (kept, s) = resolveLoop g (pendingCalls g) s;
              g = g\<lparr>pendingCalls := kept\<rparr>;
              s = updateDirtyStatus g s
          in Ok (putGroup gid g s)) y = Ok s'"
    by (auto dest: andThen_Ok)
  obtain g3 s3 where y: "y = (g3, s3)" by (cases y)
  from commitEntries_tables [OF ce [unfolded y]] have t3: "sameTables s2 s3"
    and k3: "groupID g3 = groupID g2" by simp_all
  obtain kept s4 where rl: "resolveLoop g3 (pendingCalls g3) s3 = (kept, s4)"
    by (cases "resolveLoop g3 (pendingCalls g3) s3")
  have t4: "sameTables s3 s4" using rl by (rule resolveLoop_tables)
  from f y rl have s': "s' = putGroup gid (g3\<lparr>pendingCalls := kept\<rparr>)
                               (updateDirtyStatus (g3\<lparr>pendingCalls := kept\<rparr>) s4)"
    by (simp add: Let_def)
  have "sameTables s s4" using t2 t3 t4 by (blast intro: sameTables_trans)
  moreover have "groupID (g3\<lparr>pendingCalls := kept\<rparr>) = groupID g" using k3 k2 by simp
  ultimately show ?thesis unfolding s' using store_after_frame(1) [OF assms(1) g] by blast
qed

lemma handleWriteResponse_consistent:
  "tablesConsistent s \<Longrightarrow> handleWriteResponse e response s = Ok s' \<Longrightarrow> tablesConsistent s'"
proof (induction response arbitrary: s)
  case Nil
  then show ?case by simp
next
  case (Cons p rest)
  obtain gid pg where p: "p = (gid, pg)" by (cases p)
  from Cons.prems(2) p obtain s1 where w: "writeResponseGroup e gid pg s = Ok s1"
    and r: "handleWriteResponse e rest s1 = Ok s'"
    by (auto dest: andThen_Ok)
  have "tablesConsistent s1" using Cons.prems(1) w by (rule writeResponseGroup_consistent)
  then show ?case using r by (rule Cons.IH)
qed

lemma electionTimersLoop_consistent:
  "tablesConsistent s \<Longrightarrow> electionTimersLoop e t ks s = Ok s' \<Longrightarrow> tablesConsistent s'"
proof (induction ks arbitrary: s)
  case Nil
  then show ?case by simp
next
  case (Cons gid rest)
  from Cons.prems(2) obtain g where g: "map_of (groups s) gid = Some g"
    by (cases "map_of (groups s) gid") simp_all
  show ?case
  proof (cases "\<not> t < electionDeadline g")
    case False
    with Cons.prems g have "electionTimersLoop e t rest s = Ok s'" by simp
    with Cons.prems(1) show ?thesis by (rule Cons.IH)
  next
    case True
    with Cons.prems(2) g obtain x where bc: "becomeCandidate e g s = Ok x"
      and r: "(\<lambda>(g, s). electionTimersLoop e t rest (putGroup gid g s)) x = Ok s'"
      by (auto dest: andThen_Ok)
    obtain g1 s1 where x: "x = (g1, s1)" by (cases x)
    from becomeCandidate_tables [OF bc [unfolded x]] obtain s0 where k1: "groupID g1 = groupID g"
      and t0: "sameTables s s0" and s1: "s1 = updateDirtyStatus g1 s0"
      by blast
    have "tablesConsistent (putGroup gid g1 s1)"
      unfolding s1 using store_after_frame(1) [OF Cons.prems(1) g t0 k1] .
    moreover from r x have "electionTimersLoop e t rest (putGroup gid g1 s1) = Ok s'" by simp
    ultimately show ?thesis by (rule Cons.IH)
  qed
qed

lemma continue_Continue: "continue r = Continue s' \<longleftrightarrow> r = Ok s'"
  by (cases r) (simp_all add: continue_def)

lemma step_consistent:
  assumes "tablesConsistent s" and "step e i s = Continue s'"
  shows "tablesConsistent s'"
proof (cases i)
  case (OpInput opr)
  show ?thesis
  proof (cases opr)
    case stopOp
    with assms OpInput show ?thesis by (simp add: step_def)
  next
    case (createGroupOp g)
    with assms OpInput show ?thesis
      by (auto simp: step_def continue_Continue intro: createGroup_consistent)
  next
    case (submitCommandOp gid c)
    with assms OpInput show ?thesis
      by (auto simp: step_def continue_Continue intro: ops_consistent(1))
  next
    case (changeGroupMembershipOp gid c n)
    with assms OpInput show ?thesis
      by (auto simp: step_def continue_Continue intro: ops_consistent(2))
  next
    case unknownOp
    with assms OpInput show ?thesis
      by (auto simp: step_def continue_Continue dest!: strictErrorLog_tables
               intro: sameTables_consistent)
  qed
next
  case (RequestInput call)
  with assms show ?thesis
    by (auto simp: step_def continue_Continue
             split: service_method.splits rpc_args.splits rpc_reply.splits
             dest!: strictErrorLog_tables
             intro: sameTables_consistent requestVoteRequest_consistent
                    appendEntriesRequest_consistent)
next
  case (ResponseInput call)
  with assms show ?thesis
    by (auto simp: step_def continue_Continue
             split: service_method.splits rpc_args.splits rpc_reply.splits
             dest!: strictErrorLog_tables
             intro: sameTables_consistent requestVoteResponse_consistent
                    appendEntriesResponse_consistent)
next
  case WriteReadyInput
  with assms show ?thesis
    by (auto simp: step_def continue_Continue split: if_splits intro: handleWriteReady_consistent)
next
  case (WriteResponseInput response)
  with assms show ?thesis
    by (auto simp: step_def continue_Continue intro: handleWriteResponse_consistent)
next
  case (ElectionTimerInput t)
  with assms show ?thesis
    by (auto simp: step_def continue_Continue handleElectionTimers_def split: if_splits
             intro: electionTimersLoop_consistent)
qed

lemma newState_consistent: "tablesConsistent (newState m)"
  by (simp add: tablesConsistent_def newState_def)

lemma run_consistent:
  "tablesConsistent s \<Longrightarrow> run inputs s = Continue s' \<Longrightarrow> tablesConsistent s'"
proof (induction inputs arbitrary: s)
  case Nil
  then show ?case by simp
next
  case (Cons p rest)
  obtain e i where p: "p = (e, i)" by (cases p)
  from Cons.prems(2) p obtain s1 where st: "step e i s = Continue s1"
    and r: "run rest s1 = Continue s'"
    by (cases "step e i s") simp_all
  have "tablesConsistent s1" using Cons.prems(1) st by (rule step_consistent)
  then show ?case using r by (rule Cons.IH)
qed

lemma reachable_dirtyGroups:
  assumes "run inputs (newState m) = Continue s"
  shows "distinct (dirtyGroups s)"
    and "\<forall>gid\<in>set (dirtyGroups s). map_of (groups s) gid \<noteq> None"
  using run_consistent [OF newState_consistent assms]
  by (simp_all add: tablesConsistent_def list_all_iff)

section \<open>The write-ready handshake\<close>

lemma drain_empty: "pendingEntries g = [] \<Longrightarrow> g\<lparr>pendingEntries := []\<rparr> = g"
  by (cases g) simp

lemma writeReadyLoop_result:
  assumes "distinct ds" and "\<forall>gid\<in>set ds. map_of (groups s) gid \<noteq> None"
  shows "\<exists>wreq' s'. writeReadyLoop ds wreq s = Ok (wreq', s')
           \<and> s' = s\<lparr>groups := groups s'\<rparr>
           \<and> fst ` set wreq' = fst ` set wreq \<union> set ds
           \<and> (distinct (map fst wreq) \<longrightarrow> distinct (map fst wreq'))
           \<and> (\<forall>gid. map_of wreq' gid =
                  (if gid \<in> set ds
                   then map_option (\<lambda>g. \<lparr>wq_electionState =
                           (if Equal (electionState g) (persistedElectionState g) then None
                            else Some (electionState g)),
                         wq_entries = pendingEntries g\<rparr>) (map_of (groups s) gid)
                   else map_of wreq gid))
           \<and> (\<forall>gid. map_of (groups s') gid =
                  (if gid \<in> set ds then map_option (\<lambda>g. g\<lparr>pendingEntries := []\<rparr>) (map_of (groups s) gid)
                   else map_of (groups s) gid))"
  using assms
proof (induction ds arbitrary: wreq s)
  case Nil
  then show ?case by simp
next
  case (Cons gid rest)
  from Cons.prems obtain g where g: "map_of (groups s) gid = Some g" by auto
  define req where "req = \<lparr>wq_electionState =
                           (if Equal (electionState g) (persistedElectionState g) then None
                            else Some (electionState g)),
                         wq_entries = pendingEntries g\<rparr>"
  define s1 where "s1 = putGroup gid (g\<lparr>pendingEntries := []\<rparr>) s"
  have unfold: "writeReadyLoop (gid # rest) wreq s = writeReadyLoop rest (AList.update gid req wreq) s1"
    using g by (cases "pendingEntries g = []") (simp_all add: req_def s1_def drain_empty)
  have m1: "map_of (groups s1) = (map_of (groups s))(gid \<mapsto> g\<lparr>pendingEntries := []\<rparr>)"
    by (simp add: s1_def putGroup_def update_conv')
  have d: "distinct rest" and notin: "gid \<notin> set rest" using Cons.prems by auto
  have dom: "\<forall>k\<in>set rest. map_of (groups s1) k \<noteq> None"
    using Cons.prems m1 by auto
  from Cons.IH [OF d dom, of "AList.update gid req wreq"]
  obtain wreq' s' where r: "writeReadyLoop rest (AList.update gid req wreq) s1 = Ok (wreq', s')"
     and st: "s' = s1\<lparr>groups := groups s'\<rparr>"
     and keys: "fst ` set wreq' = fst ` set (AList.update gid req wreq) \<union> set rest"
     and dist: "distinct (map fst (AList.update gid req wreq)) \<longrightarrow> distinct (map fst wreq')"
     and rq: "\<forall>k. map_of wreq' k =
                  (if k \<in> set rest
                   then map_option (\<lambda>g. \<lparr>wq_electionState =
                           (if Equal (electionState g) (persistedElectionState g) then None
                            else Some (electionState g)),
                         wq_entries = pendingEntries g\<rparr>) (map_of (groups s1) k)
                   else map_of (AList.update gid req wreq) k)"
     and gr: "\<forall>k. map_of (groups s') k =
                  (if k \<in> set rest then map_option (\<lambda>g. g\<lparr>pendingEntries := []\<rparr>) (map_of (groups s1) k)
                   else map_of (groups s1) k)"
    by blast
  have st': "s' = s\<lparr>groups := groups s'\<rparr>"
    using st by (simp add: s1_def putGroup_def)
  have keys': "fst ` set wreq' = fst ` set wreq \<union> set (gid # rest)"
    using keys by (auto simp: dom_update)
  have dist': "distinct (map fst wreq) \<longrightarrow> distinct (map fst wreq')"
    using dist by (simp add: distinct_update)
  have rq': "\<forall>k. map_of wreq' k =
                  (if k \<in> set (gid # rest)
                   then map_option (\<lambda>g. \<lparr>wq_electionState =
                           (if Equal (electionState g) (persistedElectionState g) then None
                            else Some (electionState g)),
                         wq_entries = pendingEntries g\<rparr>) (map_of (groups s) k)
                   else map_of wreq k)"
    using rq notin g by (auto simp: m1 update_conv' req_def)
  have gr': "\<forall>k. map_of (groups s') k =
                  (if k \<in> set (gid # rest) then map_option (\<lambda>g. g\<lparr>pendingEntries := []\<rparr>) (map_of (groups s) k)
                   else map_of (groups s) k)"
    using gr notin g by (auto simp: m1)
  show ?case
    unfolding unfold using r st' keys' dist' rq' gr' by blast
qed


text \<open>
  C8. The handshake is not selected exactly when the dirty set is empty. When it is taken,
  \<^verbatim>\<open>handleWriteReady\<close> hands exactly one write request to the write task; the request has
  one entry per dirty group; the entry holds the group's election state exactly when that
  differs from the persisted one, and the group's pending entries (none exactly when the
  group has none); afterwards the group's pending entries are empty, and groups outside
  the dirty set are untouched. The hypotheses say that \<^verbatim>\<open>dirtyGroups\<close> is a Go map whose
  values are installed groups: its keys are distinct and occur in the group table. They
  hold in every state a run reaches (\<open>reachable_dirtyGroups\<close>).
\<close>

theorem handleWriteReady_one_request:
  assumes "distinct (dirtyGroups s)"
    and "\<forall>gid\<in>set (dirtyGroups s). map_of (groups s) gid \<noteq> None"
  shows "(step e WriteReadyInput s = NotSelected \<longleftrightarrow> dirtyGroups s = [])
       \<and> (\<exists>wreq s'. handleWriteReady s = Ok s'
            \<and> (dirtyGroups s \<noteq> [] \<longrightarrow> step e WriteReadyInput s = Continue s')
            \<and> writeTaskIn s' = writeTaskIn s @ [wreq]
            \<and> distinct (map fst wreq) \<and> fst ` set wreq = set (dirtyGroups s)
            \<and> (\<forall>gid\<in>set (dirtyGroups s). \<forall>g. map_of (groups s) gid = Some g \<longrightarrow>
                  map_of wreq gid =
                    Some \<lparr>wq_electionState =
                            (if Equal (electionState g) (persistedElectionState g) then None
                             else Some (electionState g)),
                          wq_entries = pendingEntries g\<rparr>
                  \<and> map_of (groups s') gid = Some (g\<lparr>pendingEntries := []\<rparr>))
            \<and> (\<forall>gid. gid \<notin> set (dirtyGroups s) \<longrightarrow> map_of (groups s') gid = map_of (groups s) gid)
            \<and> dirtyGroups s' = dirtyGroups s \<and> doneCalls s' = doneCalls s
            \<and> Events s' = Events s \<and> requestsSent s' = requestsSent s)"
proof -
  have "\<exists>wreq s1. writeReadyLoop (dirtyGroups s) [] s = Ok (wreq, s1)
           \<and> s1 = s\<lparr>groups := groups s1\<rparr>
           \<and> fst ` set wreq = set (dirtyGroups s)
           \<and> distinct (map fst wreq)
           \<and> (\<forall>k. map_of wreq k =
                  (if k \<in> set (dirtyGroups s)
                   then map_option (\<lambda>g. \<lparr>wq_electionState =
                           (if Equal (electionState g) (persistedElectionState g) then None
                            else Some (electionState g)),
                         wq_entries = pendingEntries g\<rparr>) (map_of (groups s) k)
                   else None))
           \<and> (\<forall>k. map_of (groups s1) k =
                  (if k \<in> set (dirtyGroups s)
                   then map_option (\<lambda>g. g\<lparr>pendingEntries := []\<rparr>) (map_of (groups s) k)
                   else map_of (groups s) k))"
    using writeReadyLoop_result [OF assms, of "[]"] by (simp cong: if_cong)
  then obtain wreq s1 where r: "writeReadyLoop (dirtyGroups s) [] s = Ok (wreq, s1)"
     and st: "s1 = s\<lparr>groups := groups s1\<rparr>"
     and k: "fst ` set wreq = set (dirtyGroups s)"
     and di: "distinct (map fst wreq)"
     and rq: "\<forall>k. map_of wreq k =
                  (if k \<in> set (dirtyGroups s)
                   then map_option (\<lambda>g. \<lparr>wq_electionState =
                           (if Equal (electionState g) (persistedElectionState g) then None
                            else Some (electionState g)),
                         wq_entries = pendingEntries g\<rparr>) (map_of (groups s) k)
                   else None)"
     and gr: "\<forall>k. map_of (groups s1) k =
                  (if k \<in> set (dirtyGroups s)
                   then map_option (\<lambda>g. g\<lparr>pendingEntries := []\<rparr>) (map_of (groups s) k)
                   else map_of (groups s) k)"
    by (elim exE conjE) (rule that; assumption)
  define s' where "s' = s1\<lparr>writeTaskIn := writeTaskIn s1 @ [wreq]\<rparr>"
  have h: "handleWriteReady s = Ok s'"
    by (simp add: handleWriteReady_def r s'_def)
  have fields: "writeTaskIn s' = writeTaskIn s @ [wreq]" "dirtyGroups s' = dirtyGroups s"
      "doneCalls s' = doneCalls s" "Events s' = Events s" "requestsSent s' = requestsSent s"
      "groups s' = groups s1"
    unfolding s'_def by (subst st, simp)+
  have sel: "step e WriteReadyInput s = NotSelected \<longleftrightarrow> dirtyGroups s = []"
    by (simp add: step_def writeReadyOffered_def continue_def h)
  have cont: "dirtyGroups s \<noteq> [] \<longrightarrow> step e WriteReadyInput s = Continue s'"
    by (simp add: step_def writeReadyOffered_def continue_def h)
  have per: "\<forall>gid\<in>set (dirtyGroups s). \<forall>g. map_of (groups s) gid = Some g \<longrightarrow>
                  map_of wreq gid =
                    Some \<lparr>wq_electionState =
                            (if Equal (electionState g) (persistedElectionState g) then None
                             else Some (electionState g)),
                          wq_entries = pendingEntries g\<rparr>
                  \<and> map_of (groups s') gid = Some (g\<lparr>pendingEntries := []\<rparr>)"
    using rq gr fields(6) by simp
  have others: "\<forall>gid. gid \<notin> set (dirtyGroups s) \<longrightarrow> map_of (groups s') gid = map_of (groups s) gid"
    using gr fields(6) by simp
  show ?thesis
    by (intro conjI exI [of _ wreq] exI [of _ s']) (rule sel h cont fields di k per others)+
qed

theorem handleWriteReady_one_request_witness:
  "dirtyGroups twoDirtyState = [2, 1]
   \<and> map_of (groups twoDirtyState) 1 = Some entryGroup
   \<and> map_of (groups twoDirtyState) 2 = Some votedGroup
   \<and> (\<exists>wreq s'. step (iteration 0 10 []) WriteReadyInput twoDirtyState = Continue s'
         \<and> writeTaskIn s' = [wreq]
         \<and> map_of wreq 1 = Some \<lparr>wq_electionState = None, wq_entries = pendingEntries entryGroup\<rparr>
         \<and> map_of wreq 2 = Some \<lparr>wq_electionState = Some \<lparr>CurrentTerm = 4, VotedFor = 0\<rparr>, wq_entries = []\<rparr>
         \<and> map_of (groups s') 1 = Some (entryGroup\<lparr>pendingEntries := []\<rparr>)
         \<and> map_of (groups s') 2 = Some (votedGroup\<lparr>pendingEntries := []\<rparr>))"
proof -
  have d: "dirtyGroups twoDirtyState = [2, 1]" by (simp add: twoDirtyState_def)
  have g1: "map_of (groups twoDirtyState) 1 = Some entryGroup"
    and g2: "map_of (groups twoDirtyState) 2 = Some votedGroup"
    by (simp_all add: twoDirtyState_def)
  have w: "writeTaskIn twoDirtyState = []" by (simp add: twoDirtyState_def newState_def)
  have e1: "Equal (electionState entryGroup) (persistedElectionState entryGroup)"
    by (simp add: entryGroup_def Equal_def)
  have e2: "\<not> Equal (electionState votedGroup) (persistedElectionState votedGroup)"
    "electionState votedGroup = \<lparr>CurrentTerm = 4, VotedFor = 0\<rparr>" "pendingEntries votedGroup = []"
    by (simp_all add: votedGroup_def Equal_def newGroup_def)
  have h1: "distinct (dirtyGroups twoDirtyState)" by (simp add: d)
  have h2: "\<forall>gid\<in>set (dirtyGroups twoDirtyState). map_of (groups twoDirtyState) gid \<noteq> None"
    by (simp add: d g1 g2)
  from handleWriteReady_one_request [OF h1 h2, of "iteration 0 10 []"]
  obtain wreq s' where c: "dirtyGroups twoDirtyState \<noteq> [] \<longrightarrow> step (iteration 0 10 []) WriteReadyInput twoDirtyState = Continue s'"
    and i: "writeTaskIn s' = writeTaskIn twoDirtyState @ [wreq]"
    and p: "\<forall>gid\<in>set (dirtyGroups twoDirtyState). \<forall>g. map_of (groups twoDirtyState) gid = Some g \<longrightarrow>
                  map_of wreq gid =
                    Some \<lparr>wq_electionState =
                            (if Equal (electionState g) (persistedElectionState g) then None
                             else Some (electionState g)),
                          wq_entries = pendingEntries g\<rparr>
                  \<and> map_of (groups s') gid = Some (g\<lparr>pendingEntries := []\<rparr>)"
    by (elim exE conjE) (rule that; assumption)
  from p g1 d have p1: "map_of wreq 1 = Some \<lparr>wq_electionState =
                            (if Equal (electionState entryGroup) (persistedElectionState entryGroup) then None
                             else Some (electionState entryGroup)),
                          wq_entries = pendingEntries entryGroup\<rparr>
                  \<and> map_of (groups s') 1 = Some (entryGroup\<lparr>pendingEntries := []\<rparr>)"
    by simp
  from p g2 d have p2: "map_of wreq 2 = Some \<lparr>wq_electionState =
                            (if Equal (electionState votedGroup) (persistedElectionState votedGroup) then None
                             else Some (electionState votedGroup)),
                          wq_entries = pendingEntries votedGroup\<rparr>
                  \<and> map_of (groups s') 2 = Some (votedGroup\<lparr>pendingEntries := []\<rparr>)"
    by simp
  have st: "step (iteration 0 10 []) WriteReadyInput twoDirtyState = Continue s'"
    using c d by simp
  have wt: "writeTaskIn s' = [wreq]" using i w by simp
  note q1 = p1 [unfolded if_P [OF e1]]
  have r2: "(if Equal (electionState votedGroup) (persistedElectionState votedGroup) then None
             else Some (electionState votedGroup)) = Some \<lparr>CurrentTerm = 4, VotedFor = 0\<rparr>"
    using e2 by simp
  note q2 = p2 [unfolded r2 e2(3)]
  show ?thesis
    by (intro conjI exI [of _ wreq] exI [of _ s'])
       (rule d g1 g2 st wt q1 [THEN conjunct1] q1 [THEN conjunct2]
             q2 [THEN conjunct1] q2 [THEN conjunct2])+
qed

section \<open>Runs on which the loop departs from the stated behaviour\<close>

text \<open>
  C1. \<^verbatim>\<open>findQuorumIndex\<close> reads position \<^verbatim>\<open>len/2 + 1\<close> of the sorted list. With one voting
  member that position is outside the list and the read panics. With three members whose
  match indices are 3, 2 and 1 it returns 3, an index only one member has reached, while
  the largest index a strict majority has reached is 2 (the element at \<open>(len - 1) / 2\<close>).
\<close>

theorem findQuorumIndex_reads_past_majority:
  "findQuorumIndex singleMemberLeader = Crashed IndexOutOfRange
   \<and> findQuorumIndex threeMemberLeader = Ok 3
   \<and> quorum_agrees threeMemberLeader [1, 2, 3] 3 = False
   \<and> quorum_agrees threeMemberLeader [1, 2, 3] 2 = True
   \<and> sort (map (matchIndex threeMemberLeader) [1, 2, 3]) ! spec_quorum_pos 3 = 2"
  by code_simp

text \<open>
  C2. A vote request is registered as a pending call while the election state is not yet
  persisted. When the write acknowledgement arrives, \<^verbatim>\<open>resolvePendingCall\<close> sends the call
  on \<^verbatim>\<open>Done\<close> and the loop in \<^verbatim>\<open>handleWriteResponse\<close> sends it again: call 7 is completed
  twice.
\<close>

theorem pending_call_completed_twice:
  "map_option (map callId \<circ> doneCalls) (finalState (run (take 3 persistedVoteRun) (newState node1)))
     = Some []
   \<and> map_option (map callId \<circ> doneCalls) (finalState (run persistedVoteRun (newState node1)))
     = Some [7, 7]"
  by code_simp

text \<open>
  What does hold of the resolver: a call is sent only when the persisted term and index
  have reached the call's thresholds, and a call that resolves on registration is sent
  once and not queued.
\<close>

lemma resolvePendingCall_delivers:
  assumes "resolvePendingCall g c s = (True, s')"
  shows "\<exists>pes. persistedElectionState g = Some pes
           \<and> (pc_term c \<noteq> - 1 \<longrightarrow> pc_term c \<le> CurrentTerm pes)
           \<and> (pc_logIndex c \<noteq> - 1 \<longrightarrow> pc_logIndex c \<le> persistedLastIndex g)
           \<and> s' = s\<lparr>doneCalls := doneCalls s @ [pc_call c]\<rparr>"
  using assms
  by (auto simp: resolvePendingCall_def split: option.splits if_splits)

lemma addPendingCall_resolved_once:
  assumes "resolvePendingCall g c s = (True, s1)"
  shows "addPendingCall g c s = (g, s\<lparr>doneCalls := doneCalls s @ [pc_call c]\<rparr>)"
  using resolvePendingCall_delivers [OF assms] assms
  by (auto simp: addPendingCall_def)

text \<open>
  C3. \<^verbatim>\<open>requestVoteRequest\<close> assigns the request's term to \<^verbatim>\<open>CurrentTerm\<close> without comparing
  them: after a vote request of term 5 the term of group 1 is 5, and after a following
  request of term 3 it is 3.
\<close>

theorem current_term_regresses:
  "map_option (CurrentTerm \<circ> electionState) (groupOf (run (take 2 staleVoteRun) (newState node1)) 1)
     = Some 5
   \<and> map_option (CurrentTerm \<circ> electionState) (groupOf (run staleVoteRun (newState node1)) 1)
     = Some 3"
  by code_simp

text \<open>
  C4. After its election the single member of group 1 is leader and its deadline is still
  the one drawn on becoming candidate. When the timer fires at that deadline,
  \<^verbatim>\<open>handleElectionTimers\<close> calls \<^verbatim>\<open>becomeCandidate\<close> on the leader, which panics.
\<close>

theorem leader_election_timer_panics:
  "map_option role (groupOf (run electedRun (newState node1)) 1) = Some RoleLeader
   \<and> map_option electionDeadline (groupOf (run electedRun (newState node1)) 1) = Some 20
   \<and> abortedWith (run leaderTimerRun (newState node1))
       = Some (Panic ''cannot transition from leader to candidate'')"
  by code_simp

text \<open>
  C5. A follower that has persisted a membership-change entry and learns that it is
  committed streams the entry in \<^verbatim>\<open>commitEntries\<close>, whose type switch has no case for it:
  the loop ends in \<^verbatim>\<open>log.Fatalf\<close> and the commit index stays 0.
\<close>

theorem committing_membership_change_is_fatal:
  "map_option commitIndex (groupOf (run (butlast membershipCommitRun) (newState node2)) 1) = Some 0
   \<and> map_option persistedLastIndex (groupOf (run (butlast membershipCommitRun) (newState node2)) 1)
       = Some 1
   \<and> abortedWith (run membershipCommitRun (newState node2))
       = Some (Fatal ''committed unknown entry type'')"
  by code_simp

text \<open>
  What does hold of the commit loop: command entries produce one event each, in order,
  with their payloads, as long as the event channel has room.
\<close>

lemma commitLoop_commands:
  assumes "list_all (\<lambda>entry. Type entry = LogEntryCommand) entries"
    and "length (Events s) + length entries \<le> 1000"
  shows "commitLoop entries s =
           Ok (s\<lparr>Events := Events s @ map (\<lambda>entry. EventCommandCommitted (Payload entry)) entries\<rparr>)"
  using assms
proof (induction entries arbitrary: s)
  case Nil
  then show ?case by simp
next
  case (Cons entry rest)
  then show ?case by (simp add: sendEvent_def)
qed

text \<open>
  C6. \<^verbatim>\<open>createGroup\<close> installs the group without calling \<^verbatim>\<open>updateDirtyStatus\<close>: the new
  group's election state differs from its (unset) persisted state, yet the dirty set is
  empty. And after \<^verbatim>\<open>handleWriteReady\<close> has drained the pending entries of a group whose
  election state is persisted, the group is still in the dirty set.
\<close>

theorem dirty_set_out_of_step:
  "map_option differsFromPersisted (groupOf (run (take 1 persistedVoteRun) (newState node1)) 1)
     = Some True
   \<and> map_option dirtyGroups (finalState (run (take 1 persistedVoteRun) (newState node1))) = Some []
   \<and> map_option differsFromPersisted (groupOf (run drainedRun (newState node1)) 1) = Some False
   \<and> map_option dirtyGroups (finalState (run drainedRun (newState node1))) = Some [1]"
  by code_simp

end
